theory Spec2Isabelle
  imports Main "HOL-Library.AList"
begin

section \<open>Python string primitives used by app.py\<close>

text \<open>
  Strings are \<open>char list\<close>. The emoji that prefix the user-interface messages of the
  source are left out of the message literals; everything else is kept verbatim.
\<close>

text \<open>\<^verbatim>\<open>s.rstrip('/')\<close>: every trailing occurrence of the character is removed.\<close>

definition rstrip :: "char \<Rightarrow> string \<Rightarrow> string" where
  "rstrip c s = rev (dropWhile (\<lambda>x. x = c) (rev s))"

text \<open>\<^verbatim>\<open>key.startswith(p)\<close>.\<close>

definition startswith :: "string \<Rightarrow> string \<Rightarrow> bool" where
  "startswith s p = (take (length p) s = p)"

text \<open>
  \<^verbatim>\<open>x.replace(old, "")\<close>: the non-overlapping occurrences of \<open>old\<close>, found from the
  left, are removed. (With an empty \<open>old\<close> and an empty replacement Python returns the
  string unchanged.)
\<close>

function replace_empty :: "string \<Rightarrow> string \<Rightarrow> string" where
  "replace_empty old [] = []"
| "replace_empty old (c # cs) =
     (if old \<noteq> [] \<and> take (length old) (c # cs) = old
      then replace_empty old (drop (length old) (c # cs))
      else c # replace_empty old cs)"
  by pat_completeness auto
termination
  by (relation "measure (\<lambda>(old, s). length s)") (auto simp: neq_Nil_conv)

text \<open>\<^verbatim>\<open>str(n)\<close> (and \<^verbatim>\<open>f"{n}"\<close>) for a non-negative integer: its decimal digits.\<close>

definition digit_char :: "nat \<Rightarrow> char" where
  "digit_char d = char_of (48 + d)"

fun str_nat :: "nat \<Rightarrow> string" where
  "str_nat n = (if n < 10 then [digit_char n] else str_nat (n div 10) @ [digit_char (n mod 10)])"

declare str_nat.simps [simp del]

text \<open>
  \<^verbatim>\<open>int(s)\<close> in base 10: surrounding white space is ignored, one sign is allowed, the
  body is a non-empty run of digits in which single underscores may separate digits.
  Anything else raises \<^verbatim>\<open>ValueError\<close>, here \<open>None\<close>. Only ASCII digits and ASCII white
  space are modelled.
\<close>

definition is_digit :: "char \<Rightarrow> bool" where
  "is_digit c = (48 \<le> (of_char c :: nat) \<and> (of_char c :: nat) \<le> 57)"

definition is_space :: "char \<Rightarrow> bool" where
  "is_space c = (let n = (of_char c :: nat) in (9 \<le> n \<and> n \<le> 13) \<or> (28 \<le> n \<and> n \<le> 32))"

definition strip :: "string \<Rightarrow> string" where
  "strip s = rev (dropWhile is_space (rev (dropWhile is_space s)))"

fun int_body :: "string \<Rightarrow> bool" where
  "int_body [] = False"
| "int_body [c] = is_digit c"
| "int_body (c # d # r) =
     (is_digit c \<and> (if d = CHR ''_'' then int_body r else int_body (d # r)))"

definition digits_value :: "string \<Rightarrow> nat" where
  "digits_value ds = foldl (\<lambda>acc c. 10 * acc + (of_char c - 48)) 0 ds"

definition py_int :: "string \<Rightarrow> int option" where
  "py_int s =
     (let t = strip s;
          neg = (t \<noteq> [] \<and> hd t = CHR ''-'');
          u = (if t \<noteq> [] \<and> (hd t = CHR ''-'' \<or> hd t = CHR ''+'') then tl t else t)
      in if int_body u
         then Some ((if neg then - 1 else 1) * int (digits_value (filter is_digit u)))
         else None)"

section \<open>Python dictionaries\<close>

text \<open>
  A \<^verbatim>\<open>dict\<close> keeps insertion order, so it is an association list with distinct keys.
  \<^verbatim>\<open>d[k] = v\<close> is \<^const>\<open>AList.update\<close>: an existing key keeps its position and gets
  the new value, a new key is appended. A dictionary display \<^verbatim>\<open>{k1: v1, ...}\<close> inserts
  its items from left to right.
\<close>

type_synonym ('k, 'v) dict = "('k \<times> 'v) list"

definition dict_display :: "('k \<times> 'v) list \<Rightarrow> ('k, 'v) dict" where
  "dict_display kvs = foldl (\<lambda>d (k, v). AList.update k v d) [] kvs"

section \<open>The outside world\<close>

text \<open>
  The module-level configuration read from the secrets: \<^verbatim>\<open>S3_PREFIX\<close>, \<^verbatim>\<open>CDN_BASE\<close>
  and \<^verbatim>\<open>AWS_BUCKET\<close> are the three values the pipeline reads.
\<close>

record config =
  S3_PREFIX :: string
  CDN_BASE :: string
  AWS_BUCKET :: string

text \<open>
  What \<^verbatim>\<open>requests.post\<close> can do: return a response or raise a \<^verbatim>\<open>RequestException\<close>
  (its message). Of a response the code reads the status code, the \<^verbatim>\<open>content\<close>, and in
  the handler of \<^verbatim>\<open>HTTPError\<close> the body, either as decoded JSON or, when decoding fails,
  as raw text.
\<close>

datatype http_body = JsonBody string | TextBody string

datatype response = Response (status_code: nat) (content: string) (error_body: http_body)

datatype post_outcome =
    Returned response
  | RequestException string

text \<open>
  \<^verbatim>\<open>response.raise_for_status()\<close> raises \<^verbatim>\<open>HTTPError\<close> exactly for the status codes from 400
  to 599; here \<open>True\<close> is "raises".
\<close>

definition raise_for_status :: "response \<Rightarrow> bool" where
  "raise_for_status response =
     (400 \<le> status_code response \<and> status_code response < 600)"

text \<open>
  The answers of the outside world, by the position of the item in the batch (counted
  from 0) and the arguments of the call: the speech provider, the random file name of
  \<^verbatim>\<open>uuid.uuid4().hex\<close>, and the object store, where \<open>Some msg\<close> is the exception that
  \<^verbatim>\<open>s3.upload_file\<close> raises and \<open>None\<close> is a completed upload.
\<close>

record env =
  requests_post :: "nat \<Rightarrow> string \<Rightarrow> string \<Rightarrow> string \<Rightarrow> string \<Rightarrow> post_outcome"
  uuid4_hex :: "nat \<Rightarrow> string"
  upload_file :: "nat \<Rightarrow> string \<Rightarrow> string \<Rightarrow> string \<Rightarrow> string option"

text \<open>
  The calls the pipeline makes to the outside world, in order, each tagged with the
  position of the item it was made for.
\<close>

datatype call =
    Post string string string string
  | WriteFile string string
  | UploadFile string string string
  | Remove string

datatype ui_msg =
    StWrite string
  | StError string
  | StSuccess string
  | StWarning string
  | StCode string

record world =
  files :: "string set"
  calls :: "(nat \<times> call) list"
  ui :: "ui_msg list"

definition say :: "ui_msg \<Rightarrow> world \<Rightarrow> world" where
  "say m w = w\<lparr>ui := ui w @ [m]\<rparr>"

definition called :: "nat \<Rightarrow> call \<Rightarrow> world \<Rightarrow> world" where
  "called pos c w = w\<lparr>calls := calls w @ [(pos, c)]\<rparr>"

text \<open>Writing and removing the staged file are taken to succeed.\<close>

definition open_write :: "string \<Rightarrow> world \<Rightarrow> world" where
  "open_write path w = w\<lparr>files := insert path (files w)\<rparr>"

definition os_remove :: "string \<Rightarrow> world \<Rightarrow> world" where
  "os_remove path w = w\<lparr>files := files w - {path}\<rparr>"

section \<open>synthesize\_and\_upload\<close>

text \<open>
  The exception that leaves \<^verbatim>\<open>synthesize_and_upload\<close>: the one raised by
  \<^verbatim>\<open>s3.upload_file\<close>, which no handler of the function catches.
\<close>

datatype exn = UploadException string

type_synonym manifest = "(string, (string, string) dict) dict"

text \<open>The strings the body builds: the request URL, the file name, the key and the URL.\<close>

definition api_url :: "string \<Rightarrow> string" where
  "api_url voice_id = ''https://api.elevenlabs.io/v1/text-to-speech/'' @ voice_id"

definition tts_filename :: "env \<Rightarrow> nat \<Rightarrow> string" where
  "tts_filename E pos = ''tts_'' @ uuid4_hex E pos @ ''.mp3''"

text \<open>\<^verbatim>\<open>os.path.join(a, b)\<close> on POSIX, for two components.\<close>

definition os_path_join :: "string \<Rightarrow> string \<Rightarrow> string" where
  "os_path_join a b =
     (if b \<noteq> [] \<and> hd b = CHR ''/'' then b
      else if a = [] \<or> last a = CHR ''/'' then a @ b
      else a @ ''/'' @ b)"

definition s3_key :: "config \<Rightarrow> string \<Rightarrow> string" where
  "s3_key C filename = rstrip CHR ''/'' (S3_PREFIX C) @ ''/'' @ filename"

definition cdn_url :: "config \<Rightarrow> string \<Rightarrow> string" where
  "cdn_url C key = rstrip CHR ''/'' (CDN_BASE C) @ ''/'' @ key"

text \<open>
  One pass through the body of \<^verbatim>\<open>for text in paragraphs.values()\<close>. \<open>pos\<close> is the
  position of the item in the batch; \<open>index\<close> and \<open>result\<close> are the variables of the
  source, returned as the pass leaves them. The \<^verbatim>\<open>try\<close> block is the call and
  \<^verbatim>\<open>raise_for_status\<close>; whatever response does not raise there, of any status, goes on to
  be written and uploaded. Both \<^verbatim>\<open>except\<close> branches end in
  \<^verbatim>\<open>continue\<close>, which leaves \<open>index\<close> and \<open>result\<close> as they are. An exception of
  \<^verbatim>\<open>s3.upload_file\<close> leaves the function at once: the statements after the call are
  not run.
\<close>

definition loop_body :: "env \<Rightarrow> config \<Rightarrow> string \<Rightarrow> string \<Rightarrow> string \<Rightarrow> nat \<Rightarrow> string \<Rightarrow>
    nat \<Rightarrow> manifest \<Rightarrow> world \<Rightarrow> (exn + nat \<times> manifest) \<times> world" where
  "loop_body E C voice_id model_id api_key pos text index result w =
     (let w1 = say (StWrite (''Processing: slide'' @ str_nat index)) w;
          url = api_url voice_id;
          w2 = called pos (Post url api_key text model_id) w1
      in case requests_post E pos url api_key text model_id of
           RequestException e \<Rightarrow>
             (Inr (index, result),
              say (StError (''Error generating TTS for slide'' @ str_nat index @ '': '' @ e)) w2)
         | Returned response \<Rightarrow>
             if raise_for_status response then
               (let w3 = say (StError (''HTTP Error '' @ str_nat (status_code response)
                               @ '' for slide'' @ str_nat index)) w2;
                    w4 = (case error_body response of
                            JsonBody error_detail \<Rightarrow> say (StError (''Error details: '' @ error_detail)) w3
                          | TextBody t \<Rightarrow> say (StError (''Response: '' @ t)) w3)
                in (Inr (index, result), w4))
             else
               (let filename = tts_filename E pos;
                    local_path = os_path_join ''temp'' filename;
                    w3 = open_write local_path
                           (called pos (WriteFile local_path (content response)) w2);
                    key = s3_key C filename;
                    w4 = called pos (UploadFile local_path (AWS_BUCKET C) key) w3
                in case upload_file E pos local_path (AWS_BUCKET C) key of
                     Some msg \<Rightarrow> (Inl (UploadException msg), w4)
                   | None \<Rightarrow>
                       (let slide_key = ''slide'' @ str_nat index;
                            paragraph_key = ''s'' @ str_nat index @ ''paragraph1'';
                            audio_key = ''audio_url'' @ str_nat index;
                            result' = AList.update slide_key
                              (dict_display [(paragraph_key, text), (audio_key, cdn_url C key),
                                 (''voice_id'', voice_id), (''model_id'', model_id)]) result;
                            w5 = os_remove local_path (called pos (Remove local_path) w4)
                        in (Inr (index + 1, result'), w5))))"

text \<open>The loop: the body for each text in turn, until the texts end or an exception leaves it.\<close>

fun for_loop :: "env \<Rightarrow> config \<Rightarrow> string \<Rightarrow> string \<Rightarrow> string \<Rightarrow> nat \<Rightarrow> string list \<Rightarrow>
    nat \<Rightarrow> manifest \<Rightarrow> world \<Rightarrow> (exn + manifest) \<times> world" where
  "for_loop E C voice_id model_id api_key pos [] index result w = (Inr result, w)"
| "for_loop E C voice_id model_id api_key pos (text # rest) index result w =
     (case loop_body E C voice_id model_id api_key pos text index result w of
        (Inl e, w') \<Rightarrow> (Inl e, w')
      | (Inr (index', result'), w') \<Rightarrow>
          for_loop E C voice_id model_id api_key (Suc pos) rest index' result' w')"

text \<open>
  \<^verbatim>\<open>synthesize_and_upload(paragraphs, voice_id, model_id, api_key)\<close>: \<open>result = {}\<close>,
  \<open>index = 2\<close>, then the loop over \<^verbatim>\<open>paragraphs.values()\<close>. The batch is the dictionary
  parsed from the uploaded file, from paragraph key to text. The construction of the
  storage client and \<^verbatim>\<open>os.makedirs("temp", exist_ok=True)\<close>, which come before the
  loop, change nothing that \<^typ>\<open>world\<close> records.
\<close>

definition synthesize_and_upload ::
    "env \<Rightarrow> config \<Rightarrow> (string, string) dict \<Rightarrow> string \<Rightarrow> string \<Rightarrow> string \<Rightarrow> world \<Rightarrow>
     (exn + manifest) \<times> world" where
  "synthesize_and_upload E C paragraphs voice_id model_id api_key w =
     for_loop E C voice_id model_id api_key 0 (map snd paragraphs) 2 [] w"

section \<open>generate\_csv\_links\<close>

text \<open>
  The sort key \<^verbatim>\<open>lambda x: int(x.replace("slide", ""))\<close>; \<open>None\<close> where \<^verbatim>\<open>int\<close> raises.
\<close>

definition slide_number :: "string \<Rightarrow> int option" where
  "slide_number x = py_int (replace_empty ''slide'' x)"

datatype csv_exn = ValueError | KeyError

text \<open>
  The inner loop: the value of the first item of \<open>slide_data\<close> whose key starts with
  \<^verbatim>\<open>audio_url\<close> becomes one row; no such item, no row.
\<close>

fun audio_rows :: "(string, string) dict \<Rightarrow> string list list" where
  "audio_rows [] = []"
| "audio_rows ((key, v) # items) =
     (if startswith key ''audio_url'' then [[v]] else audio_rows items)"

text \<open>
  The rows handed to \<^verbatim>\<open>writer.writerow\<close>, in order: the header, then the rows of the
  slides in the order of \<^verbatim>\<open>sorted(output.keys(), key=...)\<close>. \<^verbatim>\<open>sorted\<close> computes every key
  first (so one bad key raises \<^verbatim>\<open>ValueError\<close> before any slide is visited) and is stable, as
  \<^const>\<open>sort_key\<close> is.
\<close>

definition csv_rows :: "manifest \<Rightarrow> csv_exn + string list list" where
  "csv_rows output =
     (case those (map slide_number (map fst output)) of
        None \<Rightarrow> Inl ValueError
      | Some ns \<Rightarrow>
          (let sorted_keys = map fst (sort_key snd (zip (map fst output) ns))
           in if list_ex (\<lambda>slide_key. map_of output slide_key = None) sorted_keys
              then Inl KeyError
              else Inr ([''Link''] #
                     concat (map (\<lambda>slide_key. case map_of output slide_key of
                                    Some slide_data \<Rightarrow> audio_rows slide_data
                                  | None \<Rightarrow> []) sorted_keys))))"

text \<open>
  \<^verbatim>\<open>csv.writer\<close> with the default dialect: fields joined by a comma, a field holding a
  comma, a double quote, a carriage return or a line feed is put in double quotes with
  its double quotes doubled, a row that is one empty field is written as two double
  quotes, and every row ends with carriage return and line feed.
\<close>

definition csv_field :: "string \<Rightarrow> string" where
  "csv_field f =
     (if list_ex (\<lambda>c. c = CHR '','' \<or> c = CHR 0x22 \<or> c = CHR 0x0D \<or> c = CHR 0x0A) f
      then [CHR 0x22] @ concat (map (\<lambda>c. if c = CHR 0x22 then [c, c] else [c]) f) @ [CHR 0x22]
      else f)"

fun join_fields :: "string list \<Rightarrow> string" where
  "join_fields [] = []"
| "join_fields [f] = f"
| "join_fields (f # g # fs) = f @ '','' @ join_fields (g # fs)"

definition writerow :: "string list \<Rightarrow> string" where
  "writerow row =
     (if row = [[]] then [CHR 0x22, CHR 0x22] else join_fields (map csv_field row))
     @ [CHR 0x0D, CHR 0x0A]"

definition generate_csv_links :: "manifest \<Rightarrow> csv_exn + string" where
  "generate_csv_links output =
     (case csv_rows output of Inl e \<Rightarrow> Inl e | Inr rows \<Rightarrow> Inr (concat (map writerow rows)))"

section \<open>The main execution\<close>

text \<open>
  The script from \<^verbatim>\<open>if uploaded_file:\<close> on, in a fresh session with a file uploaded and
  the button pressed. The result is \<^verbatim>\<open>st.session_state.tts_output\<close> as the run leaves it
  and the world with the messages shown. The text of the traceback is not modelled: the
  \<^verbatim>\<open>st.code\<close> message carries the exception's message.
\<close>

definition main_execution ::
    "env \<Rightarrow> config \<Rightarrow> (string, string) dict \<Rightarrow> string \<Rightarrow> string \<Rightarrow> string \<Rightarrow> world \<Rightarrow>
     manifest option \<times> world" where
  "main_execution E C paragraphs elevenlabs_api_key voice_id model_id w =
     (let w1 = say (StSuccess (''Loaded '' @ str_nat (length paragraphs) @ '' paragraphs'')) w
      in if elevenlabs_api_key = []
         then (None, say (StError ''ElevenLabs API Key is required. Please add it to .streamlit/secrets.toml under [elevenlabs] section'') w1)
         else if voice_id = [] then (None, say (StWarning ''Please enter a Voice ID'') w1)
         else if model_id = [] then (None, say (StWarning ''Please enter a Model ID'') w1)
         else (case synthesize_and_upload E C paragraphs voice_id model_id elevenlabs_api_key w1 of
                 (Inr output, w2) \<Rightarrow>
                   if output \<noteq> []
                   then (Some output,
                         say (StSuccess (''Done! Generated '' @ str_nat (length output)
                                @ '' audio files and uploaded to S3!'')) w2)
                   else (None,
                         say (StError ''No audio files were generated. Please check the errors above.'') w2)
               | (Inl (UploadException msg), w2) \<Rightarrow>
                   (None, say (StCode msg) (say (StError (''Error: '' @ msg)) w2))))"

section \<open>The output document\<close>

text \<open>
  The download button hands the manifest to \<^verbatim>\<open>json.dumps(..., indent=2, ensure_ascii=False)\<close>.
  \<^verbatim>\<open>json\<close> is Python's standard library, not code of the repository; what follows is its
  documented behaviour on the values the manifest is made of, objects and strings. Other
  JSON values (numbers, arrays, literals) are outside this fragment, and so are
  \<^verbatim>\<open>\u\<close> escapes above \<open>0xFF\<close>, which a \<^typ>\<open>char\<close> cannot hold: the parser answers
  \<open>None\<close> on them.
\<close>

datatype json = JString string | JObject "(string \<times> json) list"

text \<open>The manifest as a JSON value: an object of objects of strings.\<close>

definition to_json :: "manifest \<Rightarrow> json" where
  "to_json output =
     JObject (map (\<lambda>(slide_key, slide_data).
                (slide_key, JObject (map (\<lambda>(k, v). (k, JString v)) slide_data))) output)"

text \<open>
  The string encoder with \<^verbatim>\<open>ensure_ascii=False\<close>: the double quote, the backslash and the
  control characters are escaped, everything else is copied.
\<close>

definition hex_digit :: "nat \<Rightarrow> char" where
  "hex_digit n = (if n < 10 then char_of (48 + n) else char_of (87 + n))"

definition escape_char :: "char \<Rightarrow> string" where
  "escape_char c =
     (if c = CHR 0x22 then [CHR 0x5C, CHR 0x22]
      else if c = CHR 0x5C then [CHR 0x5C, CHR 0x5C]
      else if c = CHR 0x0A then [CHR 0x5C, CHR ''n'']
      else if c = CHR 0x0D then [CHR 0x5C, CHR ''r'']
      else if c = CHR 0x09 then [CHR 0x5C, CHR ''t'']
      else if c = CHR 0x08 then [CHR 0x5C, CHR ''b'']
      else if c = CHR 0x0C then [CHR 0x5C, CHR ''f'']
      else if (of_char c :: nat) < 32
        then [CHR 0x5C, CHR ''u'', CHR ''0'', CHR ''0'',
              hex_digit ((of_char c :: nat) div 16), hex_digit ((of_char c :: nat) mod 16)]
      else [c])"

definition encode_basestring :: "string \<Rightarrow> string" where
  "encode_basestring s = [CHR 0x22] @ concat (map escape_char s) @ [CHR 0x22]"

text \<open>
  The encoder with \<open>indent=2\<close>: an empty object is \<^verbatim>\<open>{}\<close>; otherwise the members come
  one per line, indented two spaces per level, separated by commas, the key and the
  value separated by a colon and a space.
\<close>

definition newline_indent :: "nat \<Rightarrow> string" where
  "newline_indent level = CHR 0x0A # replicate (2 * level) CHR '' ''"

fun dumps_value :: "nat \<Rightarrow> json \<Rightarrow> string"
  and dumps_items :: "nat \<Rightarrow> (string \<times> json) list \<Rightarrow> string" where
  "dumps_value level (JString s) = encode_basestring s"
| "dumps_value level (JObject items) =
     (if items = [] then ''{}''
      else ''{'' @ newline_indent (Suc level) @ dumps_items (Suc level) items
           @ newline_indent level @ ''}'')"
| "dumps_items level [] = []"
| "dumps_items level ((k, v) # items) =
     encode_basestring k @ '': '' @ dumps_value level v
     @ (if items = [] then [] else '','' @ newline_indent level @ dumps_items level items)"

definition json_dumps :: "manifest \<Rightarrow> string" where
  "json_dumps output = dumps_value 0 (to_json output)"

text \<open>
  The decoder. \<^verbatim>\<open>scanstring\<close> reads a string from after its opening quote up to the
  closing quote: a control character is an error, a backslash starts an escape.
\<close>

definition hex_value :: "char \<Rightarrow> nat option" where
  "hex_value c =
     (let n = (of_char c :: nat)
      in if 48 \<le> n \<and> n \<le> 57 then Some (n - 48)
         else if 97 \<le> n \<and> n \<le> 102 then Some (n - 87)
         else if 65 \<le> n \<and> n \<le> 70 then Some (n - 55)
         else None)"

definition unescape :: "char \<Rightarrow> char option" where
  "unescape e =
     (if e = CHR 0x22 then Some (CHR 0x22)
      else if e = CHR 0x5C then Some (CHR 0x5C)
      else if e = CHR ''/'' then Some (CHR ''/'')
      else if e = CHR ''b'' then Some (CHR 0x08)
      else if e = CHR ''f'' then Some (CHR 0x0C)
      else if e = CHR ''n'' then Some (CHR 0x0A)
      else if e = CHR ''r'' then Some (CHR 0x0D)
      else if e = CHR ''t'' then Some (CHR 0x09)
      else None)"

definition unicode_escape :: "char \<Rightarrow> char \<Rightarrow> char \<Rightarrow> char \<Rightarrow> char option" where
  "unicode_escape a b c d =
     (case (hex_value a, hex_value b, hex_value c, hex_value d) of
        (Some x, Some y, Some z, Some u) \<Rightarrow>
          if x = 0 \<and> y = 0 then Some (char_of (16 * z + u)) else None
      | _ \<Rightarrow> None)"

fun scanstring :: "string \<Rightarrow> (string \<times> string) option" where
  "scanstring [] = None"
| "scanstring (c # cs) =
     (if c = CHR 0x22 then Some ([], cs)
      else if c = CHR 0x5C then
        (case cs of
           [] \<Rightarrow> None
         | e # r \<Rightarrow>
             if e = CHR ''u'' then
               (case r of
                  a # b # c' # d # r' \<Rightarrow>
                    (case unicode_escape a b c' d of
                       None \<Rightarrow> None
                     | Some ch \<Rightarrow> map_option (\<lambda>(s, rest). (ch # s, rest)) (scanstring r'))
                | _ \<Rightarrow> None)
             else
               (case unescape e of
                  None \<Rightarrow> None
                | Some ch \<Rightarrow> map_option (\<lambda>(s, rest). (ch # s, rest)) (scanstring r)))
      else if (of_char c :: nat) < 32 then None
      else map_option (\<lambda>(s, rest). (c # s, rest)) (scanstring cs))"

definition is_ws :: "char \<Rightarrow> bool" where
  "is_ws c = (c = CHR '' '' \<or> c = CHR 0x09 \<or> c = CHR 0x0A \<or> c = CHR 0x0D)"

definition skip_ws :: "string \<Rightarrow> string" where
  "skip_ws s = dropWhile is_ws s"

text \<open>\<open>expect c s\<close>: white space, then the character \<open>c\<close>; the rest after it.\<close>

definition expect :: "char \<Rightarrow> string \<Rightarrow> string option" where
  "expect c s = (case skip_ws s of [] \<Rightarrow> None | d # r \<Rightarrow> if d = c then Some r else None)"

text \<open>
  A value is a string or an object; the members of an object are read one after the
  other until the closing brace, and the object is the dictionary made of them (a
  repeated key keeps its last value). The first argument bounds the number of nested
  calls; \<^verbatim>\<open>json.loads\<close> runs with more of it than the text has characters, and requires
  that only white space follows the value.
\<close>

fun parse_value :: "nat \<Rightarrow> string \<Rightarrow> (json \<times> string) option"
  and parse_members :: "nat \<Rightarrow> string \<Rightarrow> ((string \<times> json) list \<times> string) option" where
  "parse_value 0 s = None"
| "parse_value (Suc n) s =
     (case skip_ws s of
        [] \<Rightarrow> None
      | c # r \<Rightarrow>
          if c = CHR 0x22 then map_option (\<lambda>(str, rest). (JString str, rest)) (scanstring r)
          else if c = CHR ''{'' then
            (case expect CHR ''}'' r of
               Some rest \<Rightarrow> Some (JObject [], rest)
             | None \<Rightarrow> map_option (\<lambda>(ms, rest). (JObject (dict_display ms), rest))
                         (parse_members n r))
          else None)"
| "parse_members 0 s = None"
| "parse_members (Suc n) s =
     (case expect CHR 0x22 s of
        None \<Rightarrow> None
      | Some r \<Rightarrow>
          (case scanstring r of
             None \<Rightarrow> None
           | Some (key, r1) \<Rightarrow>
               (case expect CHR '':'' r1 of
                  None \<Rightarrow> None
                | Some r2 \<Rightarrow>
                    (case parse_value n r2 of
                       None \<Rightarrow> None
                     | Some (v, r3) \<Rightarrow>
                         (case expect CHR ''}'' r3 of
                            Some rest \<Rightarrow> Some ([(key, v)], rest)
                          | None \<Rightarrow>
                              (case expect CHR '','' r3 of
                                 None \<Rightarrow> None
                               | Some r4 \<Rightarrow>
                                   map_option (\<lambda>(ms, rest). ((key, v) # ms, rest))
                                     (parse_members n r4)))))))"

definition json_loads :: "string \<Rightarrow> json option" where
  "json_loads s =
     (case parse_value (Suc (length s)) s of
        None \<Rightarrow> None
      | Some (v, rest) \<Rightarrow> if skip_ws rest = [] then Some v else None)"

section \<open>Notions used to state the properties\<close>

text \<open>
  Whether the \<^verbatim>\<open>try\<close> block of an item ends without an exception: the call returned and
  \<^verbatim>\<open>raise_for_status\<close> did not raise. This is what the code takes for a successful
  synthesis.
\<close>

fun accepted :: "post_outcome \<Rightarrow> bool" where
  "accepted (Returned response) = (\<not> raise_for_status response)"
| "accepted (RequestException e) = False"


text \<open>
  The items of a batch that the code takes for synthesized, each with its position in the batch,
  in batch order.
\<close>

definition synthesized :: "env \<Rightarrow> string \<Rightarrow> string \<Rightarrow> string \<Rightarrow> nat \<Rightarrow> string list \<Rightarrow>
    (nat \<times> string) list" where
  "synthesized E voice_id model_id api_key pos texts =
     filter (\<lambda>(p, text). accepted (requests_post E p (api_url voice_id) api_key text model_id))
       (enumerate pos texts)"

text \<open>
  The item at a position whose synthesis succeeds and whose upload then raises.
\<close>

definition upload_raises :: "env \<Rightarrow> config \<Rightarrow> string \<Rightarrow> string \<Rightarrow> string \<Rightarrow> nat \<times> string \<Rightarrow> bool" where
  "upload_raises E C voice_id model_id api_key item =
     (case item of (p, text) \<Rightarrow>
        accepted (requests_post E p (api_url voice_id) api_key text model_id) \<and>
        upload_file E p (os_path_join ''temp'' (tts_filename E p)) (AWS_BUCKET C)
          (s3_key C (tts_filename E p)) \<noteq> None)"


text \<open>
  The exception message of the first item, in batch order, that is synthesized and whose
  upload raises; \<open>None\<close> when there is no such item.
\<close>

fun upload_error :: "env \<Rightarrow> config \<Rightarrow> string \<Rightarrow> string \<Rightarrow> string \<Rightarrow> (nat \<times> string) list \<Rightarrow>
    string option" where
  "upload_error E C voice_id model_id api_key [] = None"
| "upload_error E C voice_id model_id api_key ((p, tx) # items) =
     (if upload_raises E C voice_id model_id api_key (p, tx)
      then upload_file E p (os_path_join ''temp'' (tts_filename E p)) (AWS_BUCKET C)
             (s3_key C (tts_filename E p))
      else upload_error E C voice_id model_id api_key items)"

text \<open>
  The items that are processed: the items of the batch in order, up to and including the
  first one whose upload raises. Nothing after that item is touched.
\<close>

fun attempted :: "env \<Rightarrow> config \<Rightarrow> string \<Rightarrow> string \<Rightarrow> string \<Rightarrow> (nat \<times> string) list \<Rightarrow>
    (nat \<times> string) list" where
  "attempted E C voice_id model_id api_key [] = []"
| "attempted E C voice_id model_id api_key (item # items) =
     item # (if upload_raises E C voice_id model_id api_key item then []
             else attempted E C voice_id model_id api_key items)"

text \<open>
  The calls made for one processed item: the synthesis request; for an accepted response
  the write of the staged file and the upload; after an upload that completed, the
  removal of the staged file.
\<close>

definition item_calls :: "env \<Rightarrow> config \<Rightarrow> string \<Rightarrow> string \<Rightarrow> string \<Rightarrow> nat \<times> string \<Rightarrow>
    (nat \<times> call) list" where
  "item_calls E C voice_id model_id api_key item =
     (case item of (p, tx) \<Rightarrow>
        (p, Post (api_url voice_id) api_key tx model_id) #
        (case requests_post E p (api_url voice_id) api_key tx model_id of
           RequestException e \<Rightarrow> []
         | Returned response \<Rightarrow>
             if raise_for_status response then []
             else [(p, WriteFile (os_path_join ''temp'' (tts_filename E p)) (content response)),
                   (p, UploadFile (os_path_join ''temp'' (tts_filename E p)) (AWS_BUCKET C)
                         (s3_key C (tts_filename E p)))]
                  @ (if upload_file E p (os_path_join ''temp'' (tts_filename E p)) (AWS_BUCKET C)
                          (s3_key C (tts_filename E p)) = None
                     then [(p, Remove (os_path_join ''temp'' (tts_filename E p)))] else [])))"

text \<open>
  The messages shown for an item whose synthesis call raised, while the slide counter
  stands at \<open>index\<close>.
\<close>

definition failure_report :: "nat \<Rightarrow> post_outcome \<Rightarrow> ui_msg list" where
  "failure_report index outcome =
     StWrite (''Processing: slide'' @ str_nat index) #
     (case outcome of
        RequestException e \<Rightarrow>
          [StError (''Error generating TTS for slide'' @ str_nat index @ '': '' @ e)]
      | Returned response \<Rightarrow>
          [StError (''HTTP Error '' @ str_nat (status_code response) @ '' for slide'' @ str_nat index),
           (case error_body response of
              JsonBody error_detail \<Rightarrow> StError (''Error details: '' @ error_detail)
            | TextBody t \<Rightarrow> StError (''Response: '' @ t))])"

text \<open>The manifest entry of a slide index, a text and an audio URL.\<close>

definition slide_entry :: "string \<Rightarrow> string \<Rightarrow> nat \<times> string \<times> string \<Rightarrow> string \<times> (string, string) dict" where
  "slide_entry voice_id model_id e =
     (case e of (index, text, url) \<Rightarrow>
        (''slide'' @ str_nat index,
         [(''s'' @ str_nat index @ ''paragraph1'', text), (''audio_url'' @ str_nat index, url),
          (''voice_id'', voice_id), (''model_id'', model_id)]))"

text \<open>
  The slide index, text and URL of the \<open>j\<close>-th synthesized item, counting indices
  from \<open>index\<close>.
\<close>

definition numbered :: "env \<Rightarrow> config \<Rightarrow> nat \<Rightarrow> (nat \<times> string) list \<Rightarrow> (nat \<times> string \<times> string) list" where
  "numbered E C index items =
     map (\<lambda>(i, (p, text)). (i, text, cdn_url C (s3_key C (tts_filename E p))))
       (enumerate index items)"

text \<open>
  A separator doubled at position \<open>n\<close> of a string: a slash there with a slash right
  before or right after it.
\<close>

definition doubled_sep_at :: "string \<Rightarrow> nat \<Rightarrow> bool" where
  "doubled_sep_at s n =
     (n < length s \<and> s ! n = CHR ''/'' \<and>
      ((0 < n \<and> s ! (n - 1) = CHR ''/'') \<or> (Suc n < length s \<and> s ! Suc n = CHR ''/'')))"

section \<open>Concrete worlds\<close>

definition world0 :: world where
  "world0 = \<lparr>files = {}, calls = [], ui = []\<rparr>"

definition cfg :: config where
  "cfg = \<lparr>S3_PREFIX = ''media/audio/'', CDN_BASE = ''https://cdn.example.com/'',
          AWS_BUCKET = ''bucket''\<rparr>"

definition cfg_no_prefix :: config where
  "cfg_no_prefix = \<lparr>S3_PREFIX = [], CDN_BASE = ''https://cdn.example.com/'',
          AWS_BUCKET = ''bucket''\<rparr>"

text \<open>Every synthesis and every upload succeeds.\<close>

definition env_ok :: env where
  "env_ok = \<lparr>requests_post = (\<lambda>pos url key text model. Returned (Response 200 ''audio'' (TextBody ''audio''))),
             uuid4_hex = (\<lambda>pos. ''ab'' @ str_nat pos),
             upload_file = (\<lambda>pos path bucket key. None)\<rparr>"

text \<open>The provider rejects the first item; everything else succeeds.\<close>

definition env_first_rejected :: env where
  "env_first_rejected =
     \<lparr>requests_post = (\<lambda>pos url key text model.
         if pos = 0 then Returned (Response 400 ''bad'' (TextBody ''bad''))
         else Returned (Response 200 ''audio'' (TextBody ''audio''))),
      uuid4_hex = (\<lambda>pos. ''ab'' @ str_nat pos),
      upload_file = (\<lambda>pos path bucket key. None)\<rparr>"

text \<open>Every synthesis fails with a transport error.\<close>

definition env_offline :: env where
  "env_offline = \<lparr>requests_post = (\<lambda>pos url key text model. RequestException ''timeout''),
             uuid4_hex = (\<lambda>pos. ''ab'' @ str_nat pos),
             upload_file = (\<lambda>pos path bucket key. None)\<rparr>"

text \<open>Every synthesis succeeds; the object store refuses the upload of the first item.\<close>

definition env_upload_denied :: env where
  "env_upload_denied =
     \<lparr>requests_post = (\<lambda>pos url key text model. Returned (Response 200 ''audio'' (TextBody ''audio''))),
      uuid4_hex = (\<lambda>pos. ''ab'' @ str_nat pos),
      upload_file = (\<lambda>pos path bucket key. if pos = 0 then Some ''AccessDenied'' else None)\<rparr>"


definition batch2 :: "(string, string) dict" where
  "batch2 = [(''p1'', ''Hello''), (''p2'', ''World'')]"

section \<open>Facts about the string primitives\<close>

lemma of_char_digit: "d < 10 \<Longrightarrow> (of_char (digit_char d) :: nat) = 48 + d"
  by (simp add: digit_char_def)

lemma is_digit_digit_char: "d < 10 \<Longrightarrow> is_digit (digit_char d)"
  by (simp add: is_digit_def of_char_digit)

lemma str_nat_nonempty: "str_nat n \<noteq> []"
  by (subst str_nat.simps) simp

lemma str_nat_digits: "c \<in> set (str_nat n) \<Longrightarrow> is_digit c"
proof (induction n arbitrary: c rule: str_nat.induct)
  case (1 n)
  show ?case
  proof (cases "n < 10")
    case True
    with "1.prems" show ?thesis
      by (subst (asm) str_nat.simps) (simp add: is_digit_digit_char)
  next
    case False
    with "1.prems" have "c \<in> set (str_nat (n div 10)) \<or> c = digit_char (n mod 10)"
      by (subst (asm) str_nat.simps) auto
    with False "1.IH" show ?thesis
      by (auto simp: is_digit_digit_char)
  qed
qed

lemma digits_value_snoc: "digits_value (ds @ [c]) = 10 * digits_value ds + (of_char c - 48)"
  by (simp add: digits_value_def)

lemma digits_value_str_nat: "digits_value (str_nat n) = n"
proof (induction n rule: str_nat.induct)
  case (1 n)
  show ?case
  proof (cases "n < 10")
    case True
    then show ?thesis
      by (subst str_nat.simps) (simp add: digits_value_def of_char_digit)
  next
    case False
    then have "digits_value (str_nat n) =
        10 * digits_value (str_nat (n div 10)) + (of_char (digit_char (n mod 10)) - 48)"
      by (subst str_nat.simps) (simp add: digits_value_snoc)
    with False "1.IH" show ?thesis
      by (simp add: of_char_digit)
  qed
qed

lemma int_body_digits: "ds \<noteq> [] \<Longrightarrow> \<forall>c \<in> set ds. is_digit c \<Longrightarrow> int_body ds"
proof (induction ds rule: int_body.induct)
  case (3 c d r)
  then have "d \<noteq> CHR ''_''" by (auto simp: is_digit_def)
  with 3 show ?case by simp
qed simp_all

lemma is_digit_not_space: "is_digit c \<Longrightarrow> \<not> is_space c"
  by (auto simp: is_digit_def is_space_def Let_def)

lemma strip_digits: "\<forall>c \<in> set ds. is_digit c \<Longrightarrow> strip ds = ds"
proof (cases ds rule: rev_cases)
  case Nil
  then show ?thesis by (simp add: strip_def)
next
  case (snoc ys y)
  assume a: "\<forall>c \<in> set ds. is_digit c"
  then have "dropWhile is_space ds = ds"
    by (cases ds) (auto simp: is_digit_not_space)
  moreover have "dropWhile is_space (rev ds) = rev ds"
    using a snoc by (auto simp: is_digit_not_space)
  ultimately show ?thesis by (simp add: strip_def)
qed

lemma py_int_digits:
  assumes "ds \<noteq> []" "\<forall>c \<in> set ds. is_digit c"
  shows "py_int ds = Some (int (digits_value ds))"
proof -
  have h: "hd ds \<noteq> CHR ''-''" "hd ds \<noteq> CHR ''+''"
    using assms by (cases ds; auto simp: is_digit_def)+
  have f: "filter is_digit ds = ds" using assms by simp
  show ?thesis
    using assms h by (simp add: py_int_def strip_digits Let_def int_body_digits f)
qed

lemma py_int_str_nat: "py_int (str_nat n) = Some (int n)"
  by (simp add: py_int_digits str_nat_nonempty str_nat_digits digits_value_str_nat)

lemma str_nat_inj: "str_nat a = str_nat b \<Longrightarrow> a = b"
  by (metis py_int_str_nat option.inject of_nat_eq_iff)

lemma replace_empty_digits:
  "\<forall>c \<in> set ds. is_digit c \<Longrightarrow> replace_empty ''slide'' ds = ds"
proof (induction ds)
  case (Cons c cs)
  then have "c \<noteq> CHR ''s''" by (auto simp: is_digit_def)
  with Cons show ?case by simp
qed simp

lemma slide_number_key: "slide_number (''slide'' @ str_nat n) = Some (int n)"
proof -
  have "replace_empty ''slide'' (''slide'' @ str_nat n) = replace_empty ''slide'' (str_nat n)"
    by simp
  then show ?thesis
    by (simp add: slide_number_def replace_empty_digits str_nat_digits py_int_str_nat)
qed

lemma rstrip_no_trailing: "rstrip c s \<noteq> [] \<Longrightarrow> last (rstrip c s) \<noteq> c"
proof -
  assume a: "rstrip c s \<noteq> []"
  then have "dropWhile (\<lambda>x. x = c) (rev s) \<noteq> []" by (simp add: rstrip_def)
  then have "hd (dropWhile (\<lambda>x. x = c) (rev s)) \<noteq> c" by (rule hd_dropWhile)
  then show ?thesis using a by (simp add: rstrip_def last_rev)
qed

lemma dict_display_entry:
  "dict_display [(''s'' @ str_nat i @ ''paragraph1'', text), (''audio_url'' @ str_nat i, url),
       (''voice_id'', v), (''model_id'', m)] = snd (slide_entry v m (i, text, url))"
  by (simp add: dict_display_def slide_entry_def)

lemma update_fresh: "k \<notin> fst ` set al \<Longrightarrow> AList.update k v al = al @ [(k, v)]"
  by (induction al) auto

section \<open>Facts about one pass of the loop\<close>

lemma loop_body_failed:
  assumes "\<not> accepted (requests_post E pos (api_url v) k tx m)"
  shows "fst (loop_body E C v m k pos tx index result w) = Inr (index, result)"
    and "calls (snd (loop_body E C v m k pos tx index result w)) =
           calls w @ [(pos, Post (api_url v) k tx m)]"
    and "files (snd (loop_body E C v m k pos tx index result w)) = files w"
    and "\<exists>m0 ms. ui (snd (loop_body E C v m k pos tx index result w)) = ui w @ m0 # ms"
  using assms
  by (cases "requests_post E pos (api_url v) k tx m";
      simp add: loop_body_def Let_def say_def called_def split: http_body.split)+

lemma loop_body_raised:
  assumes "accepted (requests_post E pos (api_url v) k tx m)"
    and "upload_file E pos (os_path_join ''temp'' (tts_filename E pos)) (AWS_BUCKET C)
           (s3_key C (tts_filename E pos)) = Some msg"
  shows "fst (loop_body E C v m k pos tx index result w) = Inl (UploadException msg)"
    and "files (snd (loop_body E C v m k pos tx index result w)) =
           insert (os_path_join ''temp'' (tts_filename E pos)) (files w)"
    and "\<exists>m0 ms. ui (snd (loop_body E C v m k pos tx index result w)) = ui w @ m0 # ms"
  using assms
  by (cases "requests_post E pos (api_url v) k tx m";
      simp add: loop_body_def Let_def say_def called_def open_write_def)+

lemma loop_body_done:
  assumes "accepted (requests_post E pos (api_url v) k tx m)"
    and "upload_file E pos (os_path_join ''temp'' (tts_filename E pos)) (AWS_BUCKET C)
           (s3_key C (tts_filename E pos)) = None"
  shows "fst (loop_body E C v m k pos tx index result w) =
           Inr (index + 1, AList.update (''slide'' @ str_nat index)
             (snd (slide_entry v m (index, tx, cdn_url C (s3_key C (tts_filename E pos))))) result)"
    and "files (snd (loop_body E C v m k pos tx index result w)) =
           files w - {os_path_join ''temp'' (tts_filename E pos)}"
    and "\<exists>m0 ms. ui (snd (loop_body E C v m k pos tx index result w)) = ui w @ m0 # ms"
  using assms
  by (cases "requests_post E pos (api_url v) k tx m";
      simp add: loop_body_def Let_def say_def called_def open_write_def os_remove_def
        dict_display_entry del: append.simps)+


section \<open>Facts about the loop\<close>

lemma enumerate_Cons: "enumerate n (x # xs) = (n, x) # enumerate (Suc n) xs"
  by simp

lemma for_loop_step_failed:
  assumes "\<not> accepted (requests_post E pos (api_url v) k tx m)"
  shows "for_loop E C v m k pos (tx # rest) index result w =
         for_loop E C v m k (Suc pos) rest index result
           (snd (loop_body E C v m k pos tx index result w))"
proof -
  obtain out w1 where b: "loop_body E C v m k pos tx index result w = (out, w1)"
    by (cases "loop_body E C v m k pos tx index result w")
  with loop_body_failed(1)[OF assms, where C=C and index=index and result=result and w=w]
  have "out = Inr (index, result)" by simp
  with b show ?thesis by simp
qed

lemma for_loop_step_raised:
  assumes "accepted (requests_post E pos (api_url v) k tx m)"
    and "upload_file E pos (os_path_join ''temp'' (tts_filename E pos)) (AWS_BUCKET C)
           (s3_key C (tts_filename E pos)) = Some msg"
  shows "for_loop E C v m k pos (tx # rest) index result w =
         (Inl (UploadException msg), snd (loop_body E C v m k pos tx index result w))"
proof -
  obtain out w1 where b: "loop_body E C v m k pos tx index result w = (out, w1)"
    by (cases "loop_body E C v m k pos tx index result w")
  with loop_body_raised(1)[OF assms, where index=index and result=result and w=w]
  have "out = Inl (UploadException msg)" by simp
  with b show ?thesis by simp
qed

lemma for_loop_step_done:
  assumes "accepted (requests_post E pos (api_url v) k tx m)"
    and "upload_file E pos (os_path_join ''temp'' (tts_filename E pos)) (AWS_BUCKET C)
           (s3_key C (tts_filename E pos)) = None"
  shows "for_loop E C v m k pos (tx # rest) index result w =
         for_loop E C v m k (Suc pos) rest (Suc index)
           (AList.update (''slide'' @ str_nat index)
             (snd (slide_entry v m (index, tx, cdn_url C (s3_key C (tts_filename E pos))))) result)
           (snd (loop_body E C v m k pos tx index result w))"
proof -
  obtain out w1 where b: "loop_body E C v m k pos tx index result w = (out, w1)"
    by (cases "loop_body E C v m k pos tx index result w")
  with loop_body_done(1)[OF assms, where index=index and result=result and w=w]
  have "out = Inr (Suc index, AList.update (''slide'' @ str_nat index)
             (snd (slide_entry v m (index, tx, cdn_url C (s3_key C (tts_filename E pos))))) result)"
    by simp
  with b show ?thesis by simp
qed

declare for_loop.simps(2) [simp del]

text \<open>
  The three ways a pass can go, as a case distinction on what the outside world answers.
\<close>

lemma pass_cases:
  obtains (failed) "\<not> accepted (requests_post E pos (api_url v) k tx m)"
  | (raised) msg where "accepted (requests_post E pos (api_url v) k tx m)"
      "upload_file E pos (os_path_join ''temp'' (tts_filename E pos)) (AWS_BUCKET C)
           (s3_key C (tts_filename E pos)) = Some msg"
  | (finished) "accepted (requests_post E pos (api_url v) k tx m)"
      "upload_file E pos (os_path_join ''temp'' (tts_filename E pos)) (AWS_BUCKET C)
           (s3_key C (tts_filename E pos)) = None"
  by (cases "upload_file E pos (os_path_join ''temp'' (tts_filename E pos)) (AWS_BUCKET C)
           (s3_key C (tts_filename E pos))") auto

text \<open>The loop raises exactly when some item is synthesized and its upload raises.\<close>

lemma for_loop_raises_iff:
  "(\<exists>r. fst (for_loop E C v m k pos texts index result w) = Inr r) \<longleftrightarrow>
   \<not> list_ex (upload_raises E C v m k) (enumerate pos texts)"
proof (induction texts arbitrary: pos index result w)
  case Nil
  show ?case by simp
next
  case (Cons tx rest)
  show ?case
  proof (cases rule: pass_cases[where E=E and pos=pos and v=v and k=k and tx=tx and m=m and C=C])
    case failed
    then show ?thesis
      by (simp add: for_loop_step_failed Cons.IH upload_raises_def)
  next
    case (raised msg)
    then show ?thesis
      by (simp add: for_loop_step_raised upload_raises_def)
  next
    case finished
    then show ?thesis
      by (simp add: for_loop_step_done Cons.IH upload_raises_def)
  qed
qed

text \<open>
  A loop that returns has appended one entry per synthesized item, numbered from
  \<open>index\<close> without a gap, provided the keys already in \<open>result\<close> are below \<open>index\<close>.
\<close>

lemma for_loop_result:
  assumes "fst (for_loop E C v m k pos texts index result w) = Inr r"
    and "\<forall>key \<in> fst ` set result. \<exists>j<index. key = ''slide'' @ str_nat j"
  shows "r = result @ map (slide_entry v m) (numbered E C index (synthesized E v m k pos texts))"
  using assms
proof (induction texts arbitrary: pos index result w)
  case Nil
  then show ?case by (simp add: numbered_def synthesized_def)
next
  case (Cons tx rest)
  show ?case
  proof (cases rule: pass_cases[where E=E and pos=pos and v=v and k=k and tx=tx and m=m and C=C])
    case failed
    with Cons.prems(1) have "fst (for_loop E C v m k (Suc pos) rest index result
        (snd (loop_body E C v m k pos tx index result w))) = Inr r"
      by (simp add: for_loop_step_failed)
    from Cons.IH[OF this Cons.prems(2)] failed show ?thesis
      by (simp add: synthesized_def)
  next
    case (raised msg)
    with Cons.prems(1) show ?thesis by (simp add: for_loop_step_raised)
  next
    case finished
    let ?e = "slide_entry v m (index, tx, cdn_url C (s3_key C (tts_filename E pos)))"
    have key: "fst ?e = ''slide'' @ str_nat index" by (simp add: slide_entry_def)
    have fresh: "''slide'' @ str_nat index \<notin> fst ` set result"
    proof
      assume "''slide'' @ str_nat index \<in> fst ` set result"
      with Cons.prems(2) obtain j where "j < index" "''slide'' @ str_nat index = ''slide'' @ str_nat j"
        by blast
      then show False using str_nat_inj[of index j] by simp
    qed
    then have upd: "AList.update (''slide'' @ str_nat index) (snd ?e) result = result @ [?e]"
      using key by (simp add: update_fresh flip: key) (metis key prod.collapse)
    from finished Cons.prems(1) have run: "fst (for_loop E C v m k (Suc pos) rest (Suc index)
        (result @ [?e]) (snd (loop_body E C v m k pos tx index result w))) = Inr r"
      by (simp only: for_loop_step_done[OF finished] upd)
    have inv: "\<forall>key \<in> fst ` set (result @ [?e]). \<exists>j<Suc index. key = ''slide'' @ str_nat j"
      using Cons.prems(2) key by (auto intro: less_SucI)
    from Cons.IH[OF run inv] finished show ?thesis
      by (simp add: synthesized_def numbered_def)
  qed
qed


section \<open>The calls and the messages of a run, exactly\<close>

lemma loop_body_calls_exact:
  "calls (snd (loop_body E C v m k pos tx index result w)) = calls w @ item_calls E C v m k (pos, tx)"
  by (cases "requests_post E pos (api_url v) k tx m")
     (simp_all add: loop_body_def item_calls_def Let_def say_def called_def open_write_def
        os_remove_def split: http_body.split option.split)

lemma loop_body_failed_ui:
  assumes "\<not> accepted (requests_post E pos (api_url v) k tx m)"
  shows "ui (snd (loop_body E C v m k pos tx index result w)) =
           ui w @ failure_report index (requests_post E pos (api_url v) k tx m)"
  using assms
  by (cases "requests_post E pos (api_url v) k tx m")
     (simp_all add: loop_body_def failure_report_def Let_def say_def called_def
        split: http_body.split)

text \<open>
  The calls of the loop are those of the processed items, in order: the loop goes on
  after an item whose synthesis raised and stops at the first upload that raises.
\<close>

lemma for_loop_calls_exact:
  "calls (snd (for_loop E C v m k pos texts index result w)) =
     calls w @ concat (map (item_calls E C v m k) (attempted E C v m k (enumerate pos texts)))"
proof (induction texts arbitrary: pos index result w)
  case Nil
  show ?case by simp
next
  case (Cons tx rest)
  let ?w1 = "snd (loop_body E C v m k pos tx index result w)"
  have w1: "calls ?w1 = calls w @ item_calls E C v m k (pos, tx)"
    by (rule loop_body_calls_exact)
  show ?case
  proof (cases rule: pass_cases[where E=E and pos=pos and v=v and k=k and tx=tx and m=m and C=C])
    case failed
    then have nr: "\<not> upload_raises E C v m k (pos, tx)" by (simp add: upload_raises_def)
    show ?thesis
      unfolding for_loop_step_failed[OF failed, of C rest index result w]
      using Cons.IH[of "Suc pos" index result ?w1] w1 nr by (simp add: enumerate_Cons)
  next
    case (raised msg)
    then have r: "upload_raises E C v m k (pos, tx)" by (simp add: upload_raises_def)
    show ?thesis
      unfolding for_loop_step_raised[OF raised, of rest index result w]
      using w1 r by (simp add: enumerate_Cons)
  next
    case finished
    then have nr: "\<not> upload_raises E C v m k (pos, tx)" by (simp add: upload_raises_def)
    let ?result = "AList.update (''slide'' @ str_nat index)
          (snd (slide_entry v m (index, tx, cdn_url C (s3_key C (tts_filename E pos))))) result"
    show ?thesis
      unfolding for_loop_step_done[OF finished, of rest index result w]
      using Cons.IH[of "Suc pos" "Suc index" ?result ?w1] w1 nr by (simp add: enumerate_Cons)
  qed
qed

text \<open>
  When every synthesis call raises, the loop returns the entries it was given and has
  shown, for each item in turn, the messages of its failure, all under the same slide
  index.
\<close>

lemma for_loop_all_failed:
  assumes "synthesized E v m k pos texts = []"
  shows "fst (for_loop E C v m k pos texts index result w) = Inr result \<and>
         ui (snd (for_loop E C v m k pos texts index result w)) =
           ui w @ concat (map (\<lambda>(p, tx). failure_report index (requests_post E p (api_url v) k tx m))
                           (enumerate pos texts))"
  using assms
proof (induction texts arbitrary: pos w)
  case Nil
  show ?case by simp
next
  case (Cons tx rest)
  from Cons.prems have failed: "\<not> accepted (requests_post E pos (api_url v) k tx m)"
    and rest: "synthesized E v m k (Suc pos) rest = []"
    by (auto simp: synthesized_def enumerate_Cons split: if_splits)
  let ?w1 = "snd (loop_body E C v m k pos tx index result w)"
  from Cons.IH[OF rest, of ?w1] loop_body_failed_ui[OF failed, of C index result w]
  show ?case
    unfolding for_loop_step_failed[OF failed, of C rest index result w]
    by (simp add: enumerate_Cons)
qed



text \<open>
  What the loop returns: the exception of the first upload that raises, or else the
  entries it was given followed by one entry per synthesized item, numbered from
  \<open>index\<close> without a gap.
\<close>

lemma for_loop_outcome:
  assumes "\<forall>key \<in> fst ` set result. \<exists>j<index. key = ''slide'' @ str_nat j"
  shows "fst (for_loop E C v m k pos texts index result w) =
     (case upload_error E C v m k (enumerate pos texts) of
        Some msg \<Rightarrow> Inl (UploadException msg)
      | None \<Rightarrow> Inr (result @ map (slide_entry v m)
                    (numbered E C index (synthesized E v m k pos texts))))"
proof (cases "upload_error E C v m k (enumerate pos texts)")
  case None
  have "\<not> list_ex (upload_raises E C v m k) (enumerate pos texts)"
    using None
  proof (induction texts arbitrary: pos)
    case Nil
    show ?case by simp
  next
    case (Cons tx rest)
    then show ?case
      by (auto simp: upload_raises_def split: if_splits)
  qed
  then obtain r where r: "fst (for_loop E C v m k pos texts index result w) = Inr r"
    using for_loop_raises_iff[of E C v m k pos texts index result w] by blast
  from for_loop_result[OF r assms] r None show ?thesis by simp
next
  case (Some msg)
  then have "fst (for_loop E C v m k pos texts index result w) = Inl (UploadException msg)"
  proof (induction texts arbitrary: pos index result w)
    case Nil
    then show ?case by simp
  next
    case (Cons tx rest)
    show ?case
    proof (cases rule: pass_cases[where E=E and pos=pos and v=v and k=k and tx=tx and m=m and C=C])
      case failed
      with Cons.prems have "upload_error E C v m k (enumerate (Suc pos) rest) = Some msg"
        by (simp add: upload_raises_def)
      from Cons.IH[OF this] failed show ?thesis
        by (simp add: for_loop_step_failed)
    next
      case (raised msg')
      with Cons.prems have "msg' = msg" by (simp add: upload_raises_def)
      with raised show ?thesis by (simp add: for_loop_step_raised)
    next
      case finished
      with Cons.prems have "upload_error E C v m k (enumerate (Suc pos) rest) = Some msg"
        by (simp add: upload_raises_def)
      from Cons.IH[OF this] show ?thesis
        by (simp only: for_loop_step_done[OF finished])
    qed
  qed
  with Some show ?thesis by simp
qed

lemma numbered_indices: "map fst (numbered E C index items) = [index ..< index + length items]"
proof -
  have "map fst (numbered E C index items) = map fst (enumerate index items)"
    by (simp add: numbered_def case_prod_unfold comp_def)
  then show ?thesis by simp
qed

lemma slide_entry_key: "fst (slide_entry v m e) = ''slide'' @ str_nat (fst e)"
  by (cases e) (simp add: slide_entry_def)

section \<open>The properties of the batch pipeline\<close>

text \<open>
  The manifest of a run that returns: the entries of the accepted items, in batch order,
  the \<open>j\<close>-th of them (counting from 0) under slide index \<open>j + 2\<close>. The keys are
  \<open>slide2\<close>, \<open>slide3\<close>, ... without a gap, whatever the positions of the items whose
  synthesis raised.
\<close>

lemma manifest_of_run:
  assumes "fst (synthesize_and_upload E C paragraphs voice_id model_id api_key w) = Inr r"
  shows "r = map (slide_entry voice_id model_id)
             (numbered E C 2 (synthesized E voice_id model_id api_key 0 (map snd paragraphs))) \<and>
         map fst r = map (\<lambda>i. ''slide'' @ str_nat i) [2 ..< 2 + length r]"
proof -
  let ?items = "synthesized E voice_id model_id api_key 0 (map snd paragraphs)"
  from assms have "fst (for_loop E C voice_id model_id api_key 0 (map snd paragraphs) 2 [] w) = Inr r"
    by (simp add: synthesize_and_upload_def)
  from for_loop_result[OF this] have r: "r = map (slide_entry voice_id model_id) (numbered E C 2 ?items)"
    by simp
  have "map fst r = map (\<lambda>i. ''slide'' @ str_nat i) (map fst (numbered E C 2 ?items))"
    unfolding r by (simp add: slide_entry_key)
  moreover have "length r = length ?items"
    unfolding r by (simp add: numbered_def)
  ultimately show ?thesis
    using r by (simp add: numbered_indices)
qed

text \<open>
  C1 fails on the code. Every item is announced and reported under the current slide
  index, the failed ones too, but \<^verbatim>\<open>index += 1\<close> is reached on the success path only:
  the \<^verbatim>\<open>continue\<close> of both handlers skips it. In a batch of two whose first item the
  provider rejects and whose second item succeeds, the run shows \<open>Processing: slide2\<close> and
  \<open>HTTP Error 400 for slide2\<close> for the first item, then \<open>Processing: slide2\<close> again, and
  returns the second item under \<open>slide2\<close>, where the claim has \<open>slide3\<close>.
\<close>

theorem failed_item_index_reused:
  "synthesize_and_upload env_first_rejected cfg batch2 ''v'' ''m'' ''k'' world0 =
     (Inr [(''slide2'', [(''s2paragraph1'', ''World''),
              (''audio_url2'', ''https://cdn.example.com/media/audio/tts_ab1.mp3''),
              (''voice_id'', ''v''), (''model_id'', ''m'')])],
      \<lparr>files = {},
       calls = [(0, Post ''https://api.elevenlabs.io/v1/text-to-speech/v'' ''k'' ''Hello'' ''m''),
                (1, Post ''https://api.elevenlabs.io/v1/text-to-speech/v'' ''k'' ''World'' ''m''),
                (1, WriteFile ''temp/tts_ab1.mp3'' ''audio''),
                (1, UploadFile ''temp/tts_ab1.mp3'' ''bucket'' ''media/audio/tts_ab1.mp3''),
                (1, Remove ''temp/tts_ab1.mp3'')],
       ui = [StWrite ''Processing: slide2'', StError ''HTTP Error 400 for slide2'',
             StError ''Response: bad'', StWrite ''Processing: slide2'']\<rparr>)"
  by code_simp

text \<open>
  C2, as the code has it. An exception of the synthesis call never leaves the pipeline:
  the item is skipped and the loop goes on with the next one. An exception of the upload
  is caught nowhere in the pipeline: the first one leaves \<^const>\<open>synthesize_and_upload\<close>,
  there is no manifest, and no item after it is processed. So the run returns the entries
  of all accepted items when no upload raises, and raises the first upload exception
  otherwise; and the calls of the run are exactly those of the items up to and including
  the first one whose upload raises.
\<close>

theorem failure_propagation:
  "fst (synthesize_and_upload E C paragraphs voice_id model_id api_key w) =
     (case upload_error E C voice_id model_id api_key (enumerate 0 (map snd paragraphs)) of
        Some msg \<Rightarrow> Inl (UploadException msg)
      | None \<Rightarrow> Inr (map (slide_entry voice_id model_id)
          (numbered E C 2 (synthesized E voice_id model_id api_key 0 (map snd paragraphs))))) \<and>
   calls (snd (synthesize_and_upload E C paragraphs voice_id model_id api_key w)) =
     calls w @ concat (map (item_calls E C voice_id model_id api_key)
       (attempted E C voice_id model_id api_key (enumerate 0 (map snd paragraphs))))"
proof -
  have "fst (synthesize_and_upload E C paragraphs voice_id model_id api_key w) =
     (case upload_error E C voice_id model_id api_key (enumerate 0 (map snd paragraphs)) of
        Some msg \<Rightarrow> Inl (UploadException msg)
      | None \<Rightarrow> Inr (map (slide_entry voice_id model_id)
          (numbered E C 2 (synthesized E voice_id model_id api_key 0 (map snd paragraphs)))))"
    using for_loop_outcome[of "[]" 2 E C voice_id model_id api_key 0 "map snd paragraphs" w]
    by (auto simp: synthesize_and_upload_def split: option.splits)
  moreover have "calls (snd (synthesize_and_upload E C paragraphs voice_id model_id api_key w)) =
     calls w @ concat (map (item_calls E C voice_id model_id api_key)
       (attempted E C voice_id model_id api_key (enumerate 0 (map snd paragraphs))))"
    unfolding synthesize_and_upload_def by (rule for_loop_calls_exact)
  ultimately show ?thesis by blast
qed

theorem failure_propagation_witness:
  "fst (synthesize_and_upload env_first_rejected cfg batch2 ''v'' ''m'' ''k'' world0) =
     Inr [(''slide2'', [(''s2paragraph1'', ''World''),
              (''audio_url2'', ''https://cdn.example.com/media/audio/tts_ab1.mp3''),
              (''voice_id'', ''v''), (''model_id'', ''m'')])] \<and>
   calls (snd (synthesize_and_upload env_first_rejected cfg batch2 ''v'' ''m'' ''k'' world0)) =
     [(0, Post ''https://api.elevenlabs.io/v1/text-to-speech/v'' ''k'' ''Hello'' ''m''),
      (1, Post ''https://api.elevenlabs.io/v1/text-to-speech/v'' ''k'' ''World'' ''m''),
      (1, WriteFile ''temp/tts_ab1.mp3'' ''audio''),
      (1, UploadFile ''temp/tts_ab1.mp3'' ''bucket'' ''media/audio/tts_ab1.mp3''),
      (1, Remove ''temp/tts_ab1.mp3'')] \<and>
   fst (synthesize_and_upload env_upload_denied cfg batch2 ''v'' ''m'' ''k'' world0) =
     Inl (UploadException ''AccessDenied'') \<and>
   calls (snd (synthesize_and_upload env_upload_denied cfg batch2 ''v'' ''m'' ''k'' world0)) =
     [(0, Post ''https://api.elevenlabs.io/v1/text-to-speech/v'' ''k'' ''Hello'' ''m''),
      (0, WriteFile ''temp/tts_ab0.mp3'' ''audio''),
      (0, UploadFile ''temp/tts_ab0.mp3'' ''bucket'' ''media/audio/tts_ab0.mp3'')]"
proof -
  have a: "upload_error env_first_rejected cfg ''v'' ''m'' ''k'' (enumerate 0 (map snd batch2)) = None"
    by code_simp
  have b: "map (slide_entry ''v'' ''m'') (numbered env_first_rejected cfg 2
        (synthesized env_first_rejected ''v'' ''m'' ''k'' 0 (map snd batch2))) =
      [(''slide2'', [(''s2paragraph1'', ''World''),
              (''audio_url2'', ''https://cdn.example.com/media/audio/tts_ab1.mp3''),
              (''voice_id'', ''v''), (''model_id'', ''m'')])]"
    by code_simp
  have c: "calls world0 @ concat (map (item_calls env_first_rejected cfg ''v'' ''m'' ''k'')
       (attempted env_first_rejected cfg ''v'' ''m'' ''k'' (enumerate 0 (map snd batch2)))) =
     [(0, Post ''https://api.elevenlabs.io/v1/text-to-speech/v'' ''k'' ''Hello'' ''m''),
      (1, Post ''https://api.elevenlabs.io/v1/text-to-speech/v'' ''k'' ''World'' ''m''),
      (1, WriteFile ''temp/tts_ab1.mp3'' ''audio''),
      (1, UploadFile ''temp/tts_ab1.mp3'' ''bucket'' ''media/audio/tts_ab1.mp3''),
      (1, Remove ''temp/tts_ab1.mp3'')]"
    by code_simp
  have d: "upload_error env_upload_denied cfg ''v'' ''m'' ''k'' (enumerate 0 (map snd batch2)) =
      Some ''AccessDenied''"
    by code_simp
  have e: "calls world0 @ concat (map (item_calls env_upload_denied cfg ''v'' ''m'' ''k'')
       (attempted env_upload_denied cfg ''v'' ''m'' ''k'' (enumerate 0 (map snd batch2)))) =
     [(0, Post ''https://api.elevenlabs.io/v1/text-to-speech/v'' ''k'' ''Hello'' ''m''),
      (0, WriteFile ''temp/tts_ab0.mp3'' ''audio''),
      (0, UploadFile ''temp/tts_ab0.mp3'' ''bucket'' ''media/audio/tts_ab0.mp3'')]"
    by code_simp
  show ?thesis
    using failure_propagation[of env_first_rejected cfg batch2 "''v''" "''m''" "''k''" world0]
      failure_propagation[of env_upload_denied cfg batch2 "''v''" "''m''" "''k''" world0]
    by (simp only: a b c d e option.case)
qed

text \<open>
  C2 as stated fails: the object store refuses the upload of the first of two items;
  the run ends there with the exception, and the second item is never processed.
\<close>

theorem upload_failure_aborts_batch:
  "synthesize_and_upload env_upload_denied cfg batch2 ''v'' ''m'' ''k'' world0 =
     (Inl (UploadException ''AccessDenied''),
      \<lparr>files = {''temp/tts_ab0.mp3''},
       calls = [(0, Post ''https://api.elevenlabs.io/v1/text-to-speech/v'' ''k'' ''Hello'' ''m''),
                (0, WriteFile ''temp/tts_ab0.mp3'' ''audio''),
                (0, UploadFile ''temp/tts_ab0.mp3'' ''bucket'' ''media/audio/tts_ab0.mp3'')],
       ui = [StWrite ''Processing: slide2'']\<rparr>)"
  by code_simp

text \<open>
  C3 fails on the code: \<^verbatim>\<open>os.remove\<close> is the last statement of the body, after the
  upload, and nothing runs it when the upload raises. With the upload of the only item
  refused, the staged file is still there when the run has ended.
\<close>

theorem staged_file_left_behind:
  "files (snd (synthesize_and_upload env_upload_denied cfg [(''p1'', ''Hello'')] ''v'' ''m'' ''k'' world0))
     = {''temp/tts_ab0.mp3''}"
  by code_simp




text \<open>
  C9. On the empty batch the pipeline returns the empty manifest, raises nothing and
  leaves the world as it was: no call is made, no file is written, no message is shown.
\<close>

theorem empty_batch:
  "synthesize_and_upload E C [] voice_id model_id api_key w = (Inr [], w)"
  by (simp add: synthesize_and_upload_def)

text \<open>
  C10. The pipeline reads the batch through \<^verbatim>\<open>paragraphs.values()\<close> only: two batches
  with the same texts in the same order give, against the same outside world, the same
  outcome and the same world afterwards (the same calls, files and messages), whatever
  their keys.
\<close>

theorem paragraph_keys_irrelevant:
  assumes "map snd paragraphs = map snd paragraphs'"
  shows "synthesize_and_upload E C paragraphs voice_id model_id api_key w =
         synthesize_and_upload E C paragraphs' voice_id model_id api_key w"
  using assms by (simp add: synthesize_and_upload_def)

theorem paragraph_keys_irrelevant_witness:
  "synthesize_and_upload env_ok cfg batch2 ''v'' ''m'' ''k'' world0 =
   synthesize_and_upload env_ok cfg [(''intro'', ''Hello''), (''outro'', ''World'')] ''v'' ''m'' ''k'' world0"
proof -
  have h: "map snd batch2 = map snd [(''intro'', ''Hello''), (''outro'', ''World'')]"
    by (simp add: batch2_def)
  from paragraph_keys_irrelevant[OF h] show ?thesis .
qed

section \<open>The remote key and the public URL\<close>

lemma doubled_sep_at_join:
  assumes "a = [] \<or> last a \<noteq> CHR ''/''"
  shows "doubled_sep_at (a @ ''/'' @ b) (length a) \<longleftrightarrow> b \<noteq> [] \<and> hd b = CHR ''/''"
proof (cases a rule: rev_cases)
  case Nil
  then show ?thesis
    by (cases b) (auto simp: doubled_sep_at_def)
next
  case (snoc ys y)
  with assms have y: "y \<noteq> CHR ''/''" by simp
  have "(ys @ [y] @ ''/'' @ b) ! (length ys) = y"
    by (simp add: nth_append)
  with snoc y show ?thesis
    by (cases b) (auto simp: doubled_sep_at_def nth_append)
qed

lemma rstrip_end: "rstrip c s = [] \<or> last (rstrip c s) \<noteq> c"
  using rstrip_no_trailing by blast

lemma tts_filename_hd: "tts_filename E pos \<noteq> [] \<and> hd (tts_filename E pos) \<noteq> CHR ''/''"
  by (simp add: tts_filename_def)

lemma s3_key_hd:
  "s3_key C f \<noteq> [] \<and>
   (hd (s3_key C f) = CHR ''/'' \<longleftrightarrow>
      rstrip CHR ''/'' (S3_PREFIX C) = [] \<or> hd (rstrip CHR ''/'' (S3_PREFIX C)) = CHR ''/'')"
  by (cases "rstrip CHR ''/'' (S3_PREFIX C)") (simp_all add: s3_key_def)

text \<open>
  C8, as the code has it. The key is the stripped prefix, a slash and the file name; the
  URL is the stripped base, a slash and the key. The key of a generated file name has no
  doubled separator at its join. The URL has one at its join exactly when the prefix,
  once stripped, is empty or begins with a slash: only trailing slashes are handled.
\<close>

theorem key_and_url_joins:
  "s3_key C (tts_filename E pos) = rstrip CHR ''/'' (S3_PREFIX C) @ ''/'' @ tts_filename E pos \<and>
   cdn_url C (s3_key C (tts_filename E pos)) =
     rstrip CHR ''/'' (CDN_BASE C) @ ''/'' @ s3_key C (tts_filename E pos) \<and>
   \<not> doubled_sep_at (s3_key C (tts_filename E pos)) (length (rstrip CHR ''/'' (S3_PREFIX C))) \<and>
   (doubled_sep_at (cdn_url C (s3_key C (tts_filename E pos))) (length (rstrip CHR ''/'' (CDN_BASE C)))
      \<longleftrightarrow> rstrip CHR ''/'' (S3_PREFIX C) = [] \<or> hd (rstrip CHR ''/'' (S3_PREFIX C)) = CHR ''/'')"
proof -
  define f where "f = tts_filename E pos"
  define p where "p = rstrip CHR ''/'' (S3_PREFIX C)"
  define b where "b = rstrip CHR ''/'' (CDN_BASE C)"
  have pe: "p = [] \<or> last p \<noteq> CHR ''/''" unfolding p_def by (rule rstrip_end)
  have be: "b = [] \<or> last b \<noteq> CHR ''/''" unfolding b_def by (rule rstrip_end)
  have fh: "f \<noteq> [] \<and> hd f \<noteq> CHR ''/''" unfolding f_def by (rule tts_filename_hd)
  have key: "s3_key C f = p @ ''/'' @ f" unfolding p_def by (simp only: s3_key_def)
  have url: "cdn_url C (s3_key C f) = b @ ''/'' @ s3_key C f" unfolding b_def by (simp only: cdn_url_def)
  have k: "\<not> doubled_sep_at (s3_key C f) (length p)"
    unfolding key using doubled_sep_at_join[OF pe, of f] fh by blast
  have kh: "s3_key C f \<noteq> [] \<and> (hd (s3_key C f) = CHR ''/'' \<longleftrightarrow> p = [] \<or> hd p = CHR ''/'')"
    unfolding p_def by (rule s3_key_hd)
  have u: "doubled_sep_at (cdn_url C (s3_key C f)) (length b) \<longleftrightarrow> p = [] \<or> hd p = CHR ''/''"
    unfolding url using doubled_sep_at_join[OF be, of "s3_key C f"] kh by blast
  from key url k u show ?thesis
    unfolding f_def p_def b_def by blast
qed

theorem key_and_url_joins_witness:
  "s3_key cfg (tts_filename env_ok 0) = ''media/audio/tts_ab0.mp3'' \<and>
   cdn_url cfg (s3_key cfg (tts_filename env_ok 0)) = ''https://cdn.example.com/media/audio/tts_ab0.mp3'' \<and>
   \<not> doubled_sep_at (s3_key cfg (tts_filename env_ok 0)) (length (rstrip CHR ''/'' (S3_PREFIX cfg))) \<and>
   \<not> doubled_sep_at (cdn_url cfg (s3_key cfg (tts_filename env_ok 0)))
        (length (rstrip CHR ''/'' (CDN_BASE cfg)))"
proof -
  have a: "\<not> (rstrip CHR ''/'' (S3_PREFIX cfg) = [] \<or> hd (rstrip CHR ''/'' (S3_PREFIX cfg)) = CHR ''/'')"
    by code_simp
  have b: "s3_key cfg (tts_filename env_ok 0) = ''media/audio/tts_ab0.mp3''"
    by code_simp
  have c: "cdn_url cfg (s3_key cfg (tts_filename env_ok 0)) =
      ''https://cdn.example.com/media/audio/tts_ab0.mp3''"
    by code_simp
  from key_and_url_joins[of cfg env_ok 0] a b c show ?thesis by blast
qed

text \<open>
  C8 as stated fails: with an empty prefix the key begins with a slash, and the URL has
  two slashes where the base and the key are joined.
\<close>

theorem empty_prefix_doubles_separator:
  "cdn_url cfg_no_prefix (s3_key cfg_no_prefix (tts_filename env_ok 0)) =
     ''https://cdn.example.com//tts_ab0.mp3'' \<and>
   doubled_sep_at (cdn_url cfg_no_prefix (s3_key cfg_no_prefix (tts_filename env_ok 0)))
     (length (rstrip CHR ''/'' (CDN_BASE cfg_no_prefix)))"
  by code_simp

section \<open>What the user is shown\<close>

lemma failure_report_nonempty: "failure_report index outcome \<noteq> []"
  by (simp add: failure_report_def)

lemma main_execution_all_failed:
  assumes "key \<noteq> []" "v \<noteq> []" "m \<noteq> []"
    and "synthesized E v m key 0 (map snd paragraphs) = []"
  shows "fst (main_execution E C paragraphs key v m w) = None \<and>
         ui (snd (main_execution E C paragraphs key v m w)) =
           ui w @ [StSuccess (''Loaded '' @ str_nat (length paragraphs) @ '' paragraphs'')]
           @ concat (map (\<lambda>(p, tx). failure_report 2 (requests_post E p (api_url v) key tx m))
                      (enumerate 0 (map snd paragraphs)))
           @ [StError ''No audio files were generated. Please check the errors above.'']"
proof -
  define L where "L = StSuccess (''Loaded '' @ str_nat (length paragraphs) @ '' paragraphs'')"
  define F where "F = StError ''No audio files were generated. Please check the errors above.''"
  obtain out w2 where run: "synthesize_and_upload E C paragraphs v m key (say L w) = (out, w2)"
    by (cases "synthesize_and_upload E C paragraphs v m key (say L w)")
  from for_loop_all_failed[OF assms(4), of C 2 "[]" "say L w"] run
  have out: "out = Inr []"
    and w2: "ui w2 = ui (say L w) @ concat (map (\<lambda>(p, tx). failure_report 2
                (requests_post E p (api_url v) key tx m)) (enumerate 0 (map snd paragraphs)))"
    by (simp_all add: synthesize_and_upload_def)
  have "main_execution E C paragraphs key v m w = (None, say F w2)"
    unfolding main_execution_def Let_def L_def[symmetric] F_def[symmetric] run out
    using assms(1-3) by simp
  then show ?thesis
    using w2 by (simp add: say_def L_def F_def)
qed

lemma main_execution_nothing_submitted:
  assumes "key \<noteq> []" "v \<noteq> []" "m \<noteq> []"
  shows "fst (main_execution E C [] key v m w) = None \<and>
         ui (snd (main_execution E C [] key v m w)) =
           ui w @ [StSuccess ''Loaded 0 paragraphs'',
                   StError ''No audio files were generated. Please check the errors above.'']"
proof -
  have z: "str_nat 0 = ''0''" by code_simp
  show ?thesis
    using assms by (simp add: main_execution_def synthesize_and_upload_def say_def z)
qed

text \<open>
  C4. A run on a non-empty batch in which every synthesis call raises, and a run on the
  empty batch, both with the key and the two identifiers given. The session state is
  the same (no output) and so is the closing message. What is shown before it tells the
  two apart: the first message gives the number of paragraphs loaded, and between it
  and the closing message the first run shows, for every item, its \<open>Processing\<close> line and
  the error of its synthesis call, where the second run shows nothing.
\<close>

theorem zero_success_told_apart:
  assumes "paragraphs \<noteq> []"
    and "key \<noteq> []" "voice_id \<noteq> []" "model_id \<noteq> []"
    and "synthesized E voice_id model_id key 0 (map snd paragraphs) = []"
  shows "fst (main_execution E C paragraphs key voice_id model_id w) = None \<and>
         ui (snd (main_execution E C paragraphs key voice_id model_id w)) =
           ui w @ [StSuccess (''Loaded '' @ str_nat (length paragraphs) @ '' paragraphs'')]
           @ concat (map (\<lambda>(p, tx). failure_report 2
                            (requests_post E p (api_url voice_id) key tx model_id))
                      (enumerate 0 (map snd paragraphs)))
           @ [StError ''No audio files were generated. Please check the errors above.''] \<and>
         fst (main_execution E' C' [] key voice_id model_id w) = None \<and>
         ui (snd (main_execution E' C' [] key voice_id model_id w)) =
           ui w @ [StSuccess ''Loaded 0 paragraphs'',
                   StError ''No audio files were generated. Please check the errors above.''] \<and>
         ui (snd (main_execution E C paragraphs key voice_id model_id w)) \<noteq>
         ui (snd (main_execution E' C' [] key voice_id model_id w))"
proof -
  let ?reports = "concat (map (\<lambda>(p, tx). failure_report 2
                            (requests_post E p (api_url voice_id) key tx model_id))
                      (enumerate 0 (map snd paragraphs)))"
  note a = main_execution_all_failed[OF assms(2-5), of C w]
  note b = main_execution_nothing_submitted[OF assms(2-4), of E' C' w]
  from assms(1) obtain item items where "enumerate 0 (map snd paragraphs) = item # items"
    by (cases paragraphs) (auto simp: enumerate_Cons)
  then have "?reports \<noteq> []"
    by (cases item) (simp add: failure_report_nonempty)
  then have "length ?reports > 0" by simp
  then have "length (ui (snd (main_execution E C paragraphs key voice_id model_id w))) \<noteq>
      length (ui (snd (main_execution E' C' [] key voice_id model_id w)))"
    using a b by simp
  then have "ui (snd (main_execution E C paragraphs key voice_id model_id w)) \<noteq>
         ui (snd (main_execution E' C' [] key voice_id model_id w))"
    by auto
  with a b show ?thesis by blast
qed

theorem zero_success_told_apart_witness:
  "main_execution env_offline cfg batch2 ''k'' ''v'' ''m'' world0 =
     (None, \<lparr>files = {},
        calls = [(0, Post ''https://api.elevenlabs.io/v1/text-to-speech/v'' ''k'' ''Hello'' ''m''),
                 (1, Post ''https://api.elevenlabs.io/v1/text-to-speech/v'' ''k'' ''World'' ''m'')],
        ui = [StSuccess ''Loaded 2 paragraphs'',
              StWrite ''Processing: slide2'',
              StError ''Error generating TTS for slide2: timeout'',
              StWrite ''Processing: slide2'',
              StError ''Error generating TTS for slide2: timeout'',
              StError ''No audio files were generated. Please check the errors above.'']\<rparr>) \<and>
   main_execution env_offline cfg [] ''k'' ''v'' ''m'' world0 =
     (None, \<lparr>files = {}, calls = [],
        ui = [StSuccess ''Loaded 0 paragraphs'',
              StError ''No audio files were generated. Please check the errors above.'']\<rparr>) \<and>
   ui (snd (main_execution env_offline cfg batch2 ''k'' ''v'' ''m'' world0)) \<noteq>
   ui (snd (main_execution env_offline cfg [] ''k'' ''v'' ''m'' world0))"
proof -
  have h: "batch2 \<noteq> []" "''k'' \<noteq> []" "''v'' \<noteq> []" "''m'' \<noteq> []"
    by (simp_all add: batch2_def)
  have s: "synthesized env_offline ''v'' ''m'' ''k'' 0 (map snd batch2) = []"
    by code_simp
  have x: "main_execution env_offline cfg batch2 ''k'' ''v'' ''m'' world0 =
     (None, \<lparr>files = {},
        calls = [(0, Post ''https://api.elevenlabs.io/v1/text-to-speech/v'' ''k'' ''Hello'' ''m''),
                 (1, Post ''https://api.elevenlabs.io/v1/text-to-speech/v'' ''k'' ''World'' ''m'')],
        ui = [StSuccess ''Loaded 2 paragraphs'',
              StWrite ''Processing: slide2'',
              StError ''Error generating TTS for slide2: timeout'',
              StWrite ''Processing: slide2'',
              StError ''Error generating TTS for slide2: timeout'',
              StError ''No audio files were generated. Please check the errors above.'']\<rparr>)"
    by code_simp
  have y: "main_execution env_offline cfg [] ''k'' ''v'' ''m'' world0 =
     (None, \<lparr>files = {}, calls = [],
        ui = [StSuccess ''Loaded 0 paragraphs'',
              StError ''No audio files were generated. Please check the errors above.'']\<rparr>)"
    by code_simp
  from zero_success_told_apart[OF h s, of cfg world0 env_offline cfg]
  have "ui (snd (main_execution env_offline cfg batch2 ''k'' ''v'' ''m'' world0)) \<noteq>
   ui (snd (main_execution env_offline cfg [] ''k'' ''v'' ''m'' world0))"
    by blast
  with x y show ?thesis by blast
qed

section \<open>The link list\<close>

lemma insort_key_map: "insort_key f (g x) (map g xs) = map g (insort_key (\<lambda>y. f (g y)) x xs)"
  by (induction xs) simp_all

lemma sort_key_map: "sort_key f (map g xs) = map g (sort_key (\<lambda>y. f (g y)) xs)"
  by (induction xs) (simp_all add: insort_key_map)

lemma insort_key_int: "insort_key (\<lambda>e. int (f e)) x xs = insort_key f x xs"
  by (induction xs) simp_all

lemma sort_key_int: "sort_key (\<lambda>e. int (f e)) xs = sort_key f xs"
  by (induction xs) (simp_all add: insort_key_int)

lemma those_map_Some: "those (map (\<lambda>x. Some (f x)) xs) = Some (map f xs)"
  by (induction xs) simp_all

lemma concat_singletons:
  "(\<And>x. x \<in> set xs \<Longrightarrow> f x = [g x]) \<Longrightarrow> concat (map f xs) = map g xs"
  by (induction xs) simp_all

lemma slide_entry_number: "slide_number (fst (slide_entry v m e)) = Some (int (fst e))"
  by (simp only: slide_entry_key slide_number_key)

lemma slide_entry_key_inj:
  "fst (slide_entry v m e) = fst (slide_entry v m e') \<Longrightarrow> fst e = fst e'"
  using slide_entry_number[of v m e] slide_entry_number[of v m e'] by simp

lemma map_of_entries:
  assumes "distinct (map fst es)" and "e \<in> set es"
  shows "map_of (map (slide_entry v m) es) (fst (slide_entry v m e)) = Some (snd (slide_entry v m e))"
  using assms
proof (induction es)
  case Nil
  then show ?case by simp
next
  case (Cons a es)
  show ?case
  proof (cases "e = a")
    case True
    then show ?thesis by (cases "slide_entry v m a") simp
  next
    case False
    with Cons.prems have e: "e \<in> set es" and "fst a \<notin> fst ` set es" by auto
    then have "fst e \<noteq> fst a" by (metis imageI)
    then have "fst (slide_entry v m e) \<noteq> fst (slide_entry v m a)"
      using slide_entry_key_inj by blast
    moreover from Cons.IH e Cons.prems(1)
    have "map_of (map (slide_entry v m) es) (fst (slide_entry v m e)) = Some (snd (slide_entry v m e))"
      by simp
    ultimately show ?thesis
      by (cases "slide_entry v m a") auto
  qed
qed

lemma audio_rows_entry: "audio_rows (snd (slide_entry v m e)) = [[snd (snd e)]]"
proof -
  obtain i tx url where e: "e = (i, tx, url)" by (cases e)
  have a: "\<not> startswith (''s'' @ str_nat i @ ''paragraph1'') ''audio_url''"
    by (simp add: startswith_def)
  have b: "startswith (''audio_url'' @ str_nat i) ''audio_url''"
    by (simp add: startswith_def)
  show ?thesis
    unfolding e slide_entry_def using a b by (simp del: append.simps)
qed

text \<open>
  The rows of any dictionary of slide entries with distinct slide indices, in whatever
  order the entries were inserted: the header, then one row per entry with its audio URL,
  by ascending slide index.
\<close>

lemma csv_rows_entries:
  assumes "distinct (map fst es)"
  shows "csv_rows (map (slide_entry v m) es) =
           Inr ([''Link''] # map (\<lambda>e. [snd (snd e)]) (sort_key fst es))"
proof -
  let ?out = "map (slide_entry v m) es"
  let ?key = "\<lambda>e. fst (slide_entry v m e)"
  let ?sorted = "sort_key fst es"
  have keys: "map fst ?out = map ?key es" by simp
  have nums: "map slide_number (map fst ?out) = map (\<lambda>e. Some (int (fst e))) es"
    by (induction es) (simp_all add: slide_entry_number)
  have th: "those (map slide_number (map fst ?out)) = Some (map (\<lambda>e. int (fst e)) es)"
    by (simp only: nums those_map_Some)
  have zp: "zip (map fst ?out) (map (\<lambda>e. int (fst e)) es) = map (\<lambda>e. (?key e, int (fst e))) es"
    by (induction es) simp_all
  have sk: "map fst (sort_key snd (zip (map fst ?out) (map (\<lambda>e. int (fst e)) es))) = map ?key ?sorted"
    unfolding zp by (simp add: sort_key_map sort_key_int comp_def)
  have look: "\<And>e. e \<in> set ?sorted \<Longrightarrow> map_of ?out (?key e) = Some (snd (slide_entry v m e))"
    using map_of_entries[OF assms] by simp
  have noKey: "\<not> list_ex (\<lambda>slide_key. map_of ?out slide_key = None) (map ?key ?sorted)"
    using look by (auto simp: list_ex_iff)
  have rows: "concat (map (\<lambda>slide_key. case map_of ?out slide_key of
                                    Some slide_data \<Rightarrow> audio_rows slide_data
                                  | None \<Rightarrow> []) (map ?key ?sorted)) =
              map (\<lambda>e. [snd (snd e)]) ?sorted"
  proof -
    have "concat (map (\<lambda>e. case map_of ?out (?key e) of
                                    Some slide_data \<Rightarrow> audio_rows slide_data
                                  | None \<Rightarrow> []) ?sorted) =
          map (\<lambda>e. [snd (snd e)]) ?sorted"
      by (rule concat_singletons) (simp add: look audio_rows_entry)
    then show ?thesis by (simp add: comp_def)
  qed
  show ?thesis
    unfolding csv_rows_def th option.case Let_def sk using noKey rows by simp
qed

lemma csv_rows_numeric_order:
  "csv_rows (map (slide_entry ''v'' ''m'') [(2, ''a'', ''u2''), (10, ''b'', ''u10''), (9, ''c'', ''u9'')])
     = Inr [[''Link''], [''u2''], [''u9''], [''u10'']]"
  by code_simp

text \<open>
  C6. For the manifest of a run, which is the list of the entries of the synthesized
  items under the slide indices 2, 3, ...: the rows written are the header \<open>Link\<close> and
  then exactly one row per manifest entry, holding the URL that the entry has under
  \<open>audio_url<index>\<close>, in ascending slide index (so the row of slide 10 comes after the
  row of slide 9); the text returned is those rows as the CSV writer renders them.
\<close>

theorem link_list_of_run:
  assumes "fst (synthesize_and_upload E C paragraphs voice_id model_id api_key w) = Inr r"
    and "es = numbered E C 2 (synthesized E voice_id model_id api_key 0 (map snd paragraphs))"
  shows "r = map (slide_entry voice_id model_id) es \<and>
         map fst es = [2 ..< 2 + length r] \<and>
         csv_rows r = Inr ([''Link''] # map (\<lambda>(index, tx, url). [url]) es) \<and>
         generate_csv_links r =
           Inr (writerow [''Link''] @ concat (map (\<lambda>(index, tx, url). writerow [url]) es))"
proof -
  from assms(1) have "fst (for_loop E C voice_id model_id api_key 0 (map snd paragraphs) 2 [] w) = Inr r"
    by (simp add: synthesize_and_upload_def)
  from for_loop_result[OF this] have r: "r = map (slide_entry voice_id model_id) es"
    unfolding assms(2) by simp
  have len: "length r = length (synthesized E voice_id model_id api_key 0 (map snd paragraphs))"
    unfolding r assms(2) by (simp add: numbered_def)
  have idx: "map fst es = [2 ..< 2 + length r]"
    unfolding assms(2) by (simp only: numbered_indices len)
  have d: "distinct (map fst es)" unfolding idx by (rule distinct_upt)
  have s: "sorted (map fst es)" unfolding idx by (rule sorted_upt)
  have sel: "(\<lambda>(index, tx, url). [url]) = (\<lambda>e :: nat \<times> string \<times> string. [snd (snd e)])"
    "(\<lambda>(index, tx, url). writerow [url]) = (\<lambda>e :: nat \<times> string \<times> string. writerow [snd (snd e)])"
    by (simp_all add: case_prod_unfold)
  have rows: "csv_rows r = Inr ([''Link''] # map (\<lambda>(index, tx, url). [url]) es)"
    unfolding r sel csv_rows_entries[OF d] sort_key_id_if_sorted[OF s] ..
  have "generate_csv_links r =
           Inr (writerow [''Link''] @ concat (map (\<lambda>(index, tx, url). writerow [url]) es))"
    unfolding generate_csv_links_def rows sel by (simp add: comp_def)
  with r idx rows show ?thesis by blast
qed

theorem link_list_of_run_witness:
  "csv_rows [(''slide2'', [(''s2paragraph1'', ''Hello''),
            (''audio_url2'', ''https://cdn.example.com/media/audio/tts_ab0.mp3''),
            (''voice_id'', ''v''), (''model_id'', ''m'')]),
          (''slide3'', [(''s3paragraph1'', ''World''),
            (''audio_url3'', ''https://cdn.example.com/media/audio/tts_ab1.mp3''),
            (''voice_id'', ''v''), (''model_id'', ''m'')])] =
     Inr [[''Link''], [''https://cdn.example.com/media/audio/tts_ab0.mp3''],
          [''https://cdn.example.com/media/audio/tts_ab1.mp3'']]"
proof -
  have h: "fst (synthesize_and_upload env_ok cfg batch2 ''v'' ''m'' ''k'' world0) =
     Inr [(''slide2'', [(''s2paragraph1'', ''Hello''),
            (''audio_url2'', ''https://cdn.example.com/media/audio/tts_ab0.mp3''),
            (''voice_id'', ''v''), (''model_id'', ''m'')]),
          (''slide3'', [(''s3paragraph1'', ''World''),
            (''audio_url3'', ''https://cdn.example.com/media/audio/tts_ab1.mp3''),
            (''voice_id'', ''v''), (''model_id'', ''m'')])]"
    by code_simp
  have e: "[(2, ''Hello'', ''https://cdn.example.com/media/audio/tts_ab0.mp3''),
       (3, ''World'', ''https://cdn.example.com/media/audio/tts_ab1.mp3'')] =
      numbered env_ok cfg 2 (synthesized env_ok ''v'' ''m'' ''k'' 0 (map snd batch2))"
    by code_simp
  from link_list_of_run[OF h e]
  have "csv_rows [(''slide2'', [(''s2paragraph1'', ''Hello''),
            (''audio_url2'', ''https://cdn.example.com/media/audio/tts_ab0.mp3''),
            (''voice_id'', ''v''), (''model_id'', ''m'')]),
          (''slide3'', [(''s3paragraph1'', ''World''),
            (''audio_url3'', ''https://cdn.example.com/media/audio/tts_ab1.mp3''),
            (''voice_id'', ''v''), (''model_id'', ''m'')])] =
     Inr ([''Link''] # map (\<lambda>(index, tx, url). [url])
       [(2, ''Hello'', ''https://cdn.example.com/media/audio/tts_ab0.mp3''),
        (3 :: nat, ''World'', ''https://cdn.example.com/media/audio/tts_ab1.mp3'')])"
    by blast
  then show ?thesis by simp
qed

section \<open>Facts about the JSON encoder and decoder\<close>

lemma hex_value_hex_digit: "n < 16 \<Longrightarrow> hex_value (hex_digit n) = Some n"
  by (simp add: hex_value_def hex_digit_def Let_def)

lemma unicode_escape_control:
  assumes "(of_char c :: nat) < 32"
  shows "unicode_escape CHR ''0'' CHR ''0'' (hex_digit ((of_char c :: nat) div 16))
           (hex_digit ((of_char c :: nat) mod 16)) = Some c"
proof -
  let ?n = "of_char c :: nat"
  have z: "hex_value CHR ''0'' = Some 0" by (simp add: hex_value_def)
  have a: "hex_value (hex_digit (?n div 16)) = Some (?n div 16)"
    using assms by (intro hex_value_hex_digit) simp
  have b: "hex_value (hex_digit (?n mod 16)) = Some (?n mod 16)"
    by (intro hex_value_hex_digit) simp
  have "char_of (16 * (?n div 16) + ?n mod 16) = char_of ?n" by simp
  then show ?thesis
    by (simp add: unicode_escape_def z a b)
qed

lemma scanstring_escape_char:
  "scanstring (escape_char c @ rest) = map_option (\<lambda>(s, r). (c # s, r)) (scanstring rest)"
proof -
  consider (quote) "c = CHR 0x22" | (bs) "c = CHR 0x5C" | (nl) "c = CHR 0x0A" | (cr) "c = CHR 0x0D"
    | (tab) "c = CHR 0x09" | (b) "c = CHR 0x08" | (ff) "c = CHR 0x0C"
    | (ctl) "c \<noteq> CHR 0x22" "c \<noteq> CHR 0x5C" "c \<noteq> CHR 0x0A" "c \<noteq> CHR 0x0D" "c \<noteq> CHR 0x09"
        "c \<noteq> CHR 0x08" "c \<noteq> CHR 0x0C" "(of_char c :: nat) < 32"
    | (plain) "c \<noteq> CHR 0x22" "c \<noteq> CHR 0x5C" "\<not> (of_char c :: nat) < 32"
    by fastforce
  then show ?thesis
  proof cases
    case ctl
    then show ?thesis
      by (simp add: escape_char_def unicode_escape_control)
  next
    case plain
    then have "escape_char c = [c]"
      by (auto simp: escape_char_def)
    with plain show ?thesis by simp
  qed (simp_all add: escape_char_def unescape_def)
qed

lemma scanstring_encoded:
  "scanstring (concat (map escape_char s) @ CHR 0x22 # rest) = Some (s, rest)"
  by (induction s) (simp_all add: scanstring_escape_char)

lemma scanstring_length: "scanstring s = Some (str, rest) \<Longrightarrow> length rest < length s"
proof (induction s arbitrary: str rest rule: length_induct)
  case (1 s)
  from "1.prems" obtain c cs where s: "s = c # cs" by (cases s) auto
  have IH: "length rest' < length ys"
    if "length ys < length s" "scanstring ys = Some (str', rest')" for ys str' rest'
    using "1.IH" that by blast
  show ?case
  proof (cases "c = CHR 0x22")
    case True
    with "1.prems" s show ?thesis by simp
  next
    case q: False
    show ?thesis
    proof (cases "c = CHR 0x5C")
      case True
      with q "1.prems" s obtain e r where cs: "cs = e # r" by (cases cs) auto
      show ?thesis
      proof (cases "e = CHR ''u''")
        case u: True
        with q True cs s "1.prems" obtain a b c' d r' ch s0 where
          r: "r = a # b # c' # d # r'" and rec: "scanstring r' = Some (s0, rest)"
          by (auto split: list.splits option.splits)
        from IH[of r' s0 rest] rec show ?thesis
          using s cs r by simp
      next
        case nu: False
        with q True cs s "1.prems" obtain ch s0 where rec: "scanstring r = Some (s0, rest)"
          by (auto split: option.splits)
        from IH[of r s0 rest] rec show ?thesis
          using s cs by simp
      qed
    next
      case False
      with q s "1.prems" obtain s0 where rec: "scanstring cs = Some (s0, rest)"
        by (auto split: if_splits)
      from IH[of cs s0 rest] rec show ?thesis using s by simp
    qed
  qed
qed

lemma skip_ws_length: "length (skip_ws s) \<le> length s"
  by (simp add: skip_ws_def length_dropWhile_le)

lemma expect_length: "expect c s = Some r \<Longrightarrow> length r < length s"
proof -
  assume "expect c s = Some r"
  then have "skip_ws s = c # r"
    by (auto simp: expect_def split: list.splits if_splits)
  with skip_ws_length[of s] show ?thesis by simp
qed

text \<open>What is left after a value or a list of members is shorter than what was given.\<close>

lemma parse_length:
  "(parse_value n s = Some (v, rest) \<longrightarrow> length rest < length s) \<and>
   (parse_members n s = Some (ms, rest) \<longrightarrow> length rest < length s)"
proof (induction n arbitrary: s v rest ms)
  case 0
  show ?case by simp
next
  case (Suc n)
  have val: "length rest < length s" if pv: "parse_value (Suc n) s = Some (v, rest)"
  proof -
    from pv obtain c r where sk: "skip_ws s = c # r"
      by (cases "skip_ws s") auto
    have rs: "length r < length s" using skip_ws_length[of s] sk by simp
    show ?thesis
    proof (cases "c = CHR 0x22")
      case True
      with pv sk obtain str where "scanstring r = Some (str, rest)" by auto
      from scanstring_length[OF this] rs show ?thesis by simp
    next
      case False
      with pv sk have br: "c = CHR ''{''" by (auto split: if_splits)
      show ?thesis
      proof (cases "expect CHR ''}'' r")
        case (Some r')
        with pv sk False br have "rest = r'" by simp
        with expect_length[OF Some] rs show ?thesis by simp
      next
        case None
        with pv sk False br obtain ms' where "parse_members n r = Some (ms', rest)"
          by auto
        with Suc.IH[where s=r and rest=rest and ms=ms'] have "length rest < length r" by blast
      with rs show ?thesis by simp
      qed
    qed
  qed
  have mem: "length rest < length s" if pm: "parse_members (Suc n) s = Some (ms, rest)"
  proof -
    from pm obtain r where e1: "expect CHR 0x22 s = Some r"
      by (auto split: option.splits)
    with pm obtain key r1 where sc: "scanstring r = Some (key, r1)"
      by (auto split: option.splits)
    with pm e1 obtain r2 where e2: "expect CHR '':'' r1 = Some r2"
      by (auto split: option.splits)
    with pm e1 sc obtain v' r3 where pv: "parse_value n r2 = Some (v', r3)"
      by (auto split: option.splits)
    have "length r3 < length r2"
      using Suc.IH[where s=r2 and v=v' and rest=r3] pv by blast
    then have l3: "length r3 < length s"
      using expect_length[OF e1] scanstring_length[OF sc] expect_length[OF e2] by simp
    show ?thesis
    proof (cases "expect CHR ''}'' r3")
      case (Some r')
      with pm e1 sc e2 pv have "rest = r'" by simp
      with expect_length[OF Some] l3 show ?thesis by simp
    next
      case None
      with pm e1 sc e2 pv obtain r4 where e4: "expect CHR '','' r3 = Some r4"
        by (auto split: option.splits)
      with pm e1 sc e2 pv None obtain ms' where "parse_members n r4 = Some (ms', rest)"
        by auto
      with Suc.IH[where s=r4 and rest=rest and ms=ms'] have "length rest < length r4" by blast
      with expect_length[OF e4] l3 show ?thesis by simp
    qed
  qed
  from val mem show ?case by blast
qed

text \<open>
  A result found within some bound is found within every larger bound, and within
  every bound above the length of the text: the bound of \<^const>\<open>json_loads\<close> never cuts a
  parse short.
\<close>

lemma parse_bound:
  "(parse_value n s = Some x \<longrightarrow> (\<forall>k. n \<le> k \<or> length s < k \<longrightarrow> parse_value k s = Some x)) \<and>
   (parse_members n s = Some y \<longrightarrow> (\<forall>k. n \<le> k \<or> length s < k \<longrightarrow> parse_members k s = Some y))"
proof (induction n arbitrary: s x y)
  case 0
  show ?case by simp
next
  case (Suc n)
  have val: "parse_value k s = Some x"
    if pv: "parse_value (Suc n) s = Some x" and k: "Suc n \<le> k \<or> length s < k" for k
  proof -
    from k obtain k' where k': "k = Suc k'" by (cases k) auto
    from pv obtain c r where sk: "skip_ws s = c # r"
      by (cases "skip_ws s") auto
    have rs: "length r < length s" using skip_ws_length[of s] sk by simp
    with k k' have bound: "n \<le> k' \<or> length r < k'" by auto
    show ?thesis
    proof (cases "c = CHR ''{'' \<and> expect CHR ''}'' r = None")
      case True
      with pv sk obtain ms rest where pm: "parse_members n r = Some (ms, rest)"
        and x: "x = (JObject (dict_display ms), rest)"
        by auto
      from Suc.IH[where s=r and y="(ms, rest)"] pm bound have "parse_members k' r = Some (ms, rest)"
        by blast
      with True sk x show ?thesis unfolding k' by simp
    next
      case False
      with pv sk show ?thesis unfolding k' by (auto split: if_splits option.splits)
    qed
  qed
  have mem: "parse_members k s = Some y"
    if pm: "parse_members (Suc n) s = Some y" and k: "Suc n \<le> k \<or> length s < k" for k
  proof -
    from k obtain k' where k': "k = Suc k'" by (cases k) auto
    from pm obtain r where e1: "expect CHR 0x22 s = Some r"
      by (auto split: option.splits)
    with pm obtain key r1 where sc: "scanstring r = Some (key, r1)"
      by (auto split: option.splits)
    with pm e1 obtain r2 where e2: "expect CHR '':'' r1 = Some r2"
      by (auto split: option.splits)
    with pm e1 sc obtain v r3 where pv: "parse_value n r2 = Some (v, r3)"
      by (auto split: option.splits)
    have l2: "length r2 < length s"
      using expect_length[OF e1] scanstring_length[OF sc] expect_length[OF e2] by simp
    with k k' have "n \<le> k' \<or> length r2 < k'" by auto
    with Suc.IH[where s=r2 and x="(v, r3)"] pv have pv': "parse_value k' r2 = Some (v, r3)"
      by blast
    from parse_length[of n r2 v r3] pv have "length r3 < length r2" by blast
    with l2 have l3: "length r3 < length s" by simp
    show ?thesis
    proof (cases "expect CHR ''}'' r3")
      case (Some r')
      with pm e1 sc e2 pv pv' show ?thesis unfolding k' by simp
    next
      case None
      with pm e1 sc e2 pv obtain r4 where e4: "expect CHR '','' r3 = Some r4"
        by (auto split: option.splits)
      with pm e1 sc e2 pv None obtain ms rest where pm': "parse_members n r4 = Some (ms, rest)"
        and y: "y = ((key, v) # ms, rest)"
        by auto
      from expect_length[OF e4] l3 k k' have "n \<le> k' \<or> length r4 < k'" by auto
      with Suc.IH[where s=r4 and y="(ms, rest)"] pm' have "parse_members k' r4 = Some (ms, rest)"
        by blast
      with e1 sc e2 pv' None e4 y show ?thesis unfolding k' by simp
    qed
  qed
  from val mem show ?case by blast
qed

lemma skip_ws_newline_indent: "skip_ws (newline_indent level @ s) = skip_ws s"
proof -
  have "\<forall>c \<in> set (newline_indent level). is_ws c"
    by (auto simp: newline_indent_def is_ws_def)
  then show ?thesis
    unfolding skip_ws_def by (simp add: dropWhile_append2)
qed

lemma skip_ws_stop: "\<not> is_ws c \<Longrightarrow> skip_ws (c # s) = c # s"
  by (simp add: skip_ws_def)

lemma skip_ws_space: "skip_ws (CHR '' '' # s) = skip_ws s"
  by (simp add: skip_ws_def is_ws_def)

lemma expect_here: "\<not> is_ws c \<Longrightarrow> expect c (c # rest) = Some rest"
  by (simp add: expect_def skip_ws_stop)

lemma expect_after_indent: "\<not> is_ws c \<Longrightarrow> expect c (newline_indent level @ c # rest) = Some rest"
  by (simp add: expect_def skip_ws_newline_indent skip_ws_stop)

lemma expect_other: "\<not> is_ws d \<Longrightarrow> d \<noteq> c \<Longrightarrow> expect c (d # rest) = None"
  by (simp add: expect_def skip_ws_stop)

lemma expect_other_after_indent:
  "\<not> is_ws d \<Longrightarrow> d \<noteq> c \<Longrightarrow> expect c (newline_indent level @ d # rest) = None"
  by (simp add: expect_def skip_ws_newline_indent skip_ws_stop)

lemma not_ws: "\<not> is_ws CHR 0x22" "\<not> is_ws CHR ''{''" "\<not> is_ws CHR ''}''" "\<not> is_ws CHR '':''"
  "\<not> is_ws CHR '',''"
  by (simp_all add: is_ws_def)

lemma parse_value_space: "parse_value n (CHR '' '' # s) = parse_value n s"
  by (cases n) (simp_all add: skip_ws_space)

lemma parse_value_string:
  "parse_value (Suc n) (encode_basestring s @ rest) = Some (JString s, rest)"
  by (simp add: encode_basestring_def skip_ws_stop not_ws scanstring_encoded)

lemma dumps_items_quote:
  "items \<noteq> [] \<Longrightarrow> \<exists>t. dumps_items level items @ s = CHR 0x22 # t"
  by (cases items) (auto simp: encode_basestring_def)

lemma dict_display_acc:
  "distinct (map fst (acc @ items)) \<Longrightarrow>
   foldl (\<lambda>d (k, v). AList.update k v d) acc items = acc @ items"
proof (induction items arbitrary: acc)
  case Nil
  show ?case by simp
next
  case (Cons kv items)
  obtain k v where kv: "kv = (k, v)" by (cases kv)
  from Cons.prems kv have "k \<notin> fst ` set acc" by auto
  then have "AList.update k v acc = acc @ [(k, v)]" by (rule update_fresh)
  moreover from Cons.prems kv have "distinct (map fst ((acc @ [(k, v)]) @ items))" by simp
  ultimately show ?case
    using Cons.IH[of "acc @ [(k, v)]"] kv by simp
qed

lemma dict_display_distinct: "distinct (map fst items) \<Longrightarrow> dict_display items = items"
  using dict_display_acc[of "[]" items] by (simp add: dict_display_def)

text \<open>
  The members of an object as the encoder writes them, followed by the closing brace,
  are read back as they are, when each of their values is.
\<close>

lemma parse_members_dumps:
  assumes "items \<noteq> []"
    and "\<forall>k v rest. (k, v) \<in> set items \<longrightarrow>
           (\<exists>n. parse_value n (dumps_value level v @ rest) = Some (v, rest))"
  shows "\<exists>n. parse_members n
           (newline_indent level @ dumps_items level items @ newline_indent l' @ CHR ''}'' # rest)
         = Some (items, rest)"
  using assms
proof (induction items)
  case Nil
  then show ?case by simp
next
  case (Cons kv items)
  obtain k v where kv: "kv = (k, v)" by (cases kv)
  show ?case
  proof (cases "items = []")
    case True
    let ?R = "newline_indent l' @ CHR ''}'' # rest"
    from Cons.prems(2) kv obtain n where
      n: "parse_value n (dumps_value level v @ ?R) = Some (v, ?R)"
      by (metis list.set_intros(1))
    have "parse_members (Suc n)
           (newline_indent level @ dumps_items level (kv # items) @ ?R) = Some (kv # items, rest)"
      using True kv n
      by (simp add: encode_basestring_def expect_after_indent[where c="CHR 0x22", simplified not_ws]
          scanstring_encoded expect_here not_ws parse_value_space expect_after_indent)
    then show ?thesis by blast
  next
    case False
    let ?T = "newline_indent level @ dumps_items level items @ newline_indent l' @ CHR ''}'' # rest"
    let ?R = "CHR '','' # ?T"
    from Cons.prems(2) kv obtain n1 where
      n1: "parse_value n1 (dumps_value level v @ ?R) = Some (v, ?R)"
      by (metis list.set_intros(1))
    from Cons.prems(2) have "\<forall>k v rest. (k, v) \<in> set items \<longrightarrow>
           (\<exists>n. parse_value n (dumps_value level v @ rest) = Some (v, rest))"
      by (metis list.set_intros(2))
    from Cons.IH[OF False this] obtain n2 where
      n2: "parse_members n2 ?T = Some (items, rest)"
      by blast
    let ?n = "max n1 n2"
    from parse_bound[of n1 "dumps_value level v @ ?R" "(v, ?R)"] n1
    have v: "parse_value ?n (dumps_value level v @ ?R) = Some (v, ?R)"
      by (metis max.cobounded1)
    from parse_bound[of n2 ?T _ "(items, rest)"] n2
    have m: "parse_members ?n ?T = Some (items, rest)"
      by (metis max.cobounded2)
    have "parse_members (Suc ?n)
           (newline_indent level @ dumps_items level (kv # items) @ newline_indent l' @ CHR ''}'' # rest)
          = Some (kv # items, rest)"
      using False kv v m
      by (simp add: encode_basestring_def expect_after_indent[where c="CHR 0x22", simplified not_ws]
          scanstring_encoded expect_here expect_other not_ws parse_value_space)
    then show ?thesis by blast
  qed
qed

text \<open>An object with distinct keys is read back as it is, when each of its values is.\<close>

lemma parse_value_object:
  assumes "distinct (map fst items)"
    and "\<forall>k v rest. (k, v) \<in> set items \<longrightarrow>
           (\<exists>n. parse_value n (dumps_value (Suc level) v @ rest) = Some (v, rest))"
  shows "\<exists>n. parse_value n (dumps_value level (JObject items) @ rest) = Some (JObject items, rest)"
proof (cases "items = []")
  case True
  then have "parse_value (Suc 0) (dumps_value level (JObject items) @ rest) = Some (JObject items, rest)"
    by (simp add: skip_ws_stop not_ws expect_here)
  then show ?thesis by blast
next
  case False
  let ?T = "newline_indent (Suc level) @ dumps_items (Suc level) items
      @ newline_indent level @ CHR ''}'' # rest"
  from parse_members_dumps[OF False assms(2), where l'=level and rest=rest] obtain n where
    n: "parse_members n ?T = Some (items, rest)"
    by blast
  from dumps_items_quote[OF False, of "Suc level" "newline_indent level @ CHR ''}'' # rest"]
  obtain t where t: "dumps_items (Suc level) items @ newline_indent level @ CHR ''}'' # rest = CHR 0x22 # t"
    by blast
  have ne: "expect CHR ''}'' ?T = None"
    unfolding t by (rule expect_other_after_indent) (simp_all add: not_ws)
  have "parse_value (Suc n) (dumps_value level (JObject items) @ rest) = Some (JObject items, rest)"
    using False n ne by (simp add: skip_ws_stop not_ws dict_display_distinct[OF assms(1)])
  then show ?thesis by blast
qed

text \<open>
  The round trip: a manifest whose slide keys are distinct, each slide with distinct
  keys, is read back from its document as the object of objects of strings it is.
\<close>

lemma json_round_trip:
  assumes "distinct (map fst output)"
    and "\<forall>slide_key slide_data. (slide_key, slide_data) \<in> set output \<longrightarrow>
           distinct (map fst slide_data)"
  shows "json_loads (json_dumps output) = Some (to_json output)"
proof -
  let ?inner = "\<lambda>slide_data :: (string, string) dict. JObject (map (\<lambda>(k, v). (k, JString v)) slide_data)"
  let ?items = "map (\<lambda>(slide_key, slide_data). (slide_key, ?inner slide_data)) output"
  have tj: "to_json output = JObject ?items" by (simp add: to_json_def)
  have inner1: "\<exists>n. parse_value n (dumps_value (Suc 0) v @ rest) = Some (v, rest)"
    if "(k, v) \<in> set ?items" for k v rest
  proof -
    from that obtain slide_data where sd: "(k, slide_data) \<in> set output" "v = ?inner slide_data"
      by auto
    from assms(2) sd(1) have "distinct (map fst slide_data)" by blast
    then have d: "distinct (map fst (map (\<lambda>(k, v). (k, JString v)) slide_data))"
      by (simp add: comp_def case_prod_unfold)
    have strs1: "\<exists>n. parse_value n (dumps_value (Suc (Suc 0)) v' @ rest') = Some (v', rest')"
      if "(k', v') \<in> set (map (\<lambda>(k, v). (k, JString v)) slide_data)" for k' v' rest'
    proof -
      from that obtain s where s: "v' = JString s" by auto
      have "parse_value (Suc 0) (dumps_value (Suc (Suc 0)) v' @ rest') = Some (v', rest')"
        unfolding s by (simp only: dumps_value.simps parse_value_string)
      then show ?thesis by blast
    qed
    from strs1 have strs: "\<forall>k' v' rest'. (k', v') \<in> set (map (\<lambda>(k, v). (k, JString v)) slide_data) \<longrightarrow>
        (\<exists>n. parse_value n (dumps_value (Suc (Suc 0)) v' @ rest') = Some (v', rest'))"
      by blast
    from parse_value_object[OF d strs, where rest=rest] sd(2) show ?thesis by simp
  qed
  then have inner: "\<forall>k v rest. (k, v) \<in> set ?items \<longrightarrow>
      (\<exists>n. parse_value n (dumps_value (Suc 0) v @ rest) = Some (v, rest))"
    by blast
  have d: "distinct (map fst ?items)"
    using assms(1) by (simp add: comp_def case_prod_unfold)
  from parse_value_object[OF d inner, where rest="[]"] obtain n where
    "parse_value n (dumps_value 0 (JObject ?items)) = Some (JObject ?items, [])"
    by auto
  with parse_bound[of n "dumps_value 0 (JObject ?items)" "(JObject ?items, [])"]
  have "parse_value (Suc (length (dumps_value 0 (JObject ?items)))) (dumps_value 0 (JObject ?items))
      = Some (JObject ?items, [])"
    by blast
  then show ?thesis
    unfolding json_loads_def json_dumps_def tj by (simp add: skip_ws_def)
qed

lemma slide_entry_inner_distinct: "distinct (map fst (snd (slide_entry v m e)))"
  by (cases e) (simp add: slide_entry_def)

lemma slide_entries_distinct:
  assumes "distinct (map fst es)"
  shows "distinct (map fst (map (slide_entry v m) es))"
proof -
  have "inj_on (\<lambda>e. fst (slide_entry v m e)) (set es)"
  proof (rule inj_onI)
    fix a b assume ab: "a \<in> set es" "b \<in> set es" "fst (slide_entry v m a) = fst (slide_entry v m b)"
    then have "fst a = fst b" using slide_entry_key_inj by blast
    with assms ab(1,2) show "a = b"
      by (meson distinct_map inj_onD)
  qed
  moreover from assms have "distinct es" by (simp add: distinct_map)
  ultimately show ?thesis
    by (simp add: distinct_map comp_def)
qed

lemma to_json_entries:
  "to_json (map (slide_entry v m) es) =
     JObject (map (\<lambda>(index, tx, url).
        (''slide'' @ str_nat index,
         JObject [(''s'' @ str_nat index @ ''paragraph1'', JString tx),
                  (''audio_url'' @ str_nat index, JString url),
                  (''voice_id'', JString v), (''model_id'', JString m)])) es)"
  by (simp add: to_json_def slide_entry_def comp_def case_prod_unfold del: append.simps)

text \<open>
  C7. For the manifest of a run: the document written by \<^verbatim>\<open>json.dumps\<close>, read back, is
  an object with one member per manifest entry, in order, under distinct keys
  \<open>slide<index>\<close> for the indices 2, 3, ...; the value of each is the object with exactly
  the four members \<open>s<index>paragraph1\<close> (the text of the item), \<open>audio_url<index>\<close> (the
  URL published for it), \<open>voice_id\<close> and \<open>model_id\<close> (the identifiers the run was called
  with).
\<close>

theorem document_round_trip:
  assumes "fst (synthesize_and_upload E C paragraphs voice_id model_id api_key w) = Inr r"
    and "es = numbered E C 2 (synthesized E voice_id model_id api_key 0 (map snd paragraphs))"
  shows "json_loads (json_dumps r) =
           Some (JObject (map (\<lambda>(index, tx, url).
             (''slide'' @ str_nat index,
              JObject [(''s'' @ str_nat index @ ''paragraph1'', JString tx),
                       (''audio_url'' @ str_nat index, JString url),
                       (''voice_id'', JString voice_id), (''model_id'', JString model_id)])) es)) \<and>
         distinct (map (\<lambda>(index, tx, url). ''slide'' @ str_nat index) es) \<and>
         map fst es = [2 ..< 2 + length r]"
proof -
  from assms(1) have "fst (for_loop E C voice_id model_id api_key 0 (map snd paragraphs) 2 [] w) = Inr r"
    by (simp add: synthesize_and_upload_def)
  from for_loop_result[OF this] have r: "r = map (slide_entry voice_id model_id) es"
    unfolding assms(2) by simp
  have len: "length r = length (synthesized E voice_id model_id api_key 0 (map snd paragraphs))"
    unfolding r assms(2) by (simp add: numbered_def)
  have idx: "map fst es = [2 ..< 2 + length r]"
    unfolding assms(2) by (simp only: numbered_indices len)
  have d: "distinct (map fst es)" unfolding idx by (rule distinct_upt)
  have outer: "distinct (map fst r)"
    unfolding r using d by (rule slide_entries_distinct)
  have inner: "distinct (map fst slide_data)" if "(slide_key, slide_data) \<in> set r" for slide_key slide_data
  proof -
    from that have "(slide_key, slide_data) \<in> slide_entry voice_id model_id ` set es"
      unfolding r by simp
    then obtain e where "(slide_key, slide_data) = slide_entry voice_id model_id e"
      by (rule imageE)
    then have "slide_data = snd (slide_entry voice_id model_id e)"
      by (metis snd_conv)
    then show ?thesis by (simp only: slide_entry_inner_distinct)
  qed
  have keys: "map fst r = map (\<lambda>(index, tx, url). ''slide'' @ str_nat index) es"
    unfolding r by (simp add: slide_entry_def comp_def case_prod_unfold del: append.simps)
  from inner have "\<forall>slide_key slide_data. (slide_key, slide_data) \<in> set r \<longrightarrow>
      distinct (map fst slide_data)"
    by blast
  from json_round_trip[OF outer this]
  have "json_loads (json_dumps r) = Some (to_json r)" .
  then have "json_loads (json_dumps r) =
           Some (JObject (map (\<lambda>(index, tx, url).
             (''slide'' @ str_nat index,
              JObject [(''s'' @ str_nat index @ ''paragraph1'', JString tx),
                       (''audio_url'' @ str_nat index, JString url),
                       (''voice_id'', JString voice_id), (''model_id'', JString model_id)])) es))"
    unfolding r to_json_entries .
  with outer idx show ?thesis unfolding keys by blast
qed

theorem document_round_trip_witness:
  "json_loads (json_dumps
     [(''slide2'', [(''s2paragraph1'', ''Hello''),
            (''audio_url2'', ''https://cdn.example.com/media/audio/tts_ab0.mp3''),
            (''voice_id'', ''v''), (''model_id'', ''m'')]),
      (''slide3'', [(''s3paragraph1'', ''World''),
            (''audio_url3'', ''https://cdn.example.com/media/audio/tts_ab1.mp3''),
            (''voice_id'', ''v''), (''model_id'', ''m'')])]) =
   Some (JObject
     [(''slide2'', JObject [(''s2paragraph1'', JString ''Hello''),
            (''audio_url2'', JString ''https://cdn.example.com/media/audio/tts_ab0.mp3''),
            (''voice_id'', JString ''v''), (''model_id'', JString ''m'')]),
      (''slide3'', JObject [(''s3paragraph1'', JString ''World''),
            (''audio_url3'', JString ''https://cdn.example.com/media/audio/tts_ab1.mp3''),
            (''voice_id'', JString ''v''), (''model_id'', JString ''m'')])])"
proof -
  have h: "fst (synthesize_and_upload env_ok cfg batch2 ''v'' ''m'' ''k'' world0) =
     Inr [(''slide2'', [(''s2paragraph1'', ''Hello''),
            (''audio_url2'', ''https://cdn.example.com/media/audio/tts_ab0.mp3''),
            (''voice_id'', ''v''), (''model_id'', ''m'')]),
          (''slide3'', [(''s3paragraph1'', ''World''),
            (''audio_url3'', ''https://cdn.example.com/media/audio/tts_ab1.mp3''),
            (''voice_id'', ''v''), (''model_id'', ''m'')])]"
    by code_simp
  have e: "[(2, ''Hello'', ''https://cdn.example.com/media/audio/tts_ab0.mp3''),
       (3, ''World'', ''https://cdn.example.com/media/audio/tts_ab1.mp3'')] =
      numbered env_ok cfg 2 (synthesized env_ok ''v'' ''m'' ''k'' 0 (map snd batch2))"
    by code_simp
  have s: "str_nat 2 = ''2''" "str_nat 3 = ''3''" by code_simp+
  from document_round_trip[OF h e]
  have "json_loads (json_dumps
     [(''slide2'', [(''s2paragraph1'', ''Hello''),
            (''audio_url2'', ''https://cdn.example.com/media/audio/tts_ab0.mp3''),
            (''voice_id'', ''v''), (''model_id'', ''m'')]),
      (''slide3'', [(''s3paragraph1'', ''World''),
            (''audio_url3'', ''https://cdn.example.com/media/audio/tts_ab1.mp3''),
            (''voice_id'', ''v''), (''model_id'', ''m'')])]) =
     Some (JObject (map (\<lambda>(index, tx, url).
             (''slide'' @ str_nat index,
              JObject [(''s'' @ str_nat index @ ''paragraph1'', JString tx),
                       (''audio_url'' @ str_nat index, JString url),
                       (''voice_id'', JString ''v''), (''model_id'', JString ''m'')]))
        [(2, ''Hello'', ''https://cdn.example.com/media/audio/tts_ab0.mp3''),
         (3, ''World'', ''https://cdn.example.com/media/audio/tts_ab1.mp3'')]))"
    by blast
  then show ?thesis by (simp add: s)
qed

end
